theory Spec2Isabelle
  imports Main "HOL-Library.AList" "HOL-Library.Sublist" "HOL-Library.Monad_Syntax"
begin

section \<open>Data model\<close>

text \<open>
  The core of the visualizer is the class \<open>RAGState\<close> and the class \<open>Simulator\<close> around it.
  JavaScript objects used as dictionaries are association lists in insertion order:
  \<open>map_of\<close> reads a key, \<open>AList.update\<close> assigns (in place for an existing key, at the end
  for a new one) and \<open>AList.delete\<close> is the \<open>delete\<close> operator. Counts and totals are
  integers (the user interface supplies whole numbers); JavaScript's fractional and
  infinite numbers are outside this model. Names are ordinary property names (not names
  inherited from \<open>Object.prototype\<close>).
\<close>

datatype pstate = ready | blocked

record Process =
  p_name :: string
  p_state :: pstate

record Resource =
  r_name :: string
  r_total :: int

text \<open>A wait-queue entry \<open>{process, count}\<close>.\<close>

record WaitReq =
  process :: string
  count :: int

text \<open>
  An event \<open>{type, process, resource, count}\<close>. The type is the string the code compares
  with \<open>'request'\<close> and \<open>'release'\<close>. A count is \<open>None\<close> when \<open>Number(count)\<close> is not a
  number (or the argument is absent).
\<close>

record Event =
  e_type :: string
  e_process :: string
  e_resource :: string
  e_count :: "int option"

text \<open>
  Log lines. Each constructor stands for one template string of the source and carries
  the values the template interpolates.
\<close>

datatype log_entry =
    AvoidedGrantLog int string string "string list list"
      \<comment> \<open>Avoided (definite cycle): granting count res to proc would create cycles\<close>
  | AllowedGrantLog int string string
      \<comment> \<open>Allowed (potential cycle): granting count res to proc may form a multi-instance cycle.\<close>
  | GrantedLog string int string int
      \<comment> \<open>Granted: proc <- count res (avail n)\<close>
  | AvoidedWaitLog string string "string list list"
      \<comment> \<open>Avoided (definite cycle): queuing wait proc -> res would create cycles\<close>
  | AllowedWaitLog string string
      \<comment> \<open>Allowed (potential cycle): queuing wait proc -> res may form a multi-instance cycle.\<close>
  | BlockedLog string int string
      \<comment> \<open>Blocked: proc waiting for count res\<close>
  | NoOpReleaseLog string string
      \<comment> \<open>No-op: proc holds 0 of res\<close>
  | ReleasedLog string int string int
      \<comment> \<open>Released: proc -> rel res (avail n)\<close>
  | QueueGrantAllowedLog string string
      \<comment> \<open>Queue grant allowed (potential cycle) for proc on res.\<close>
  | UnblockedLog string int string
      \<comment> \<open>Unblocked: proc granted count res from queue\<close>
  | NoOpStepLog
      \<comment> \<open>No-op step: no pending events and nothing can be granted.\<close>
  | OtherLog string
      \<comment> \<open>any other line pushed by the user interface\<close>

record RAGState =
  processes :: "Process list"
  resources :: "Resource list"
  assignments :: "(string \<times> (string \<times> int) list) list"
  waitingRequests :: "(string \<times> WaitReq list) list"
  eventQueue :: "Event list"
  step :: int
  logs :: "log_entry list"
  avoidance :: bool

text \<open>\<open>new RAGState()\<close>.\<close>

definition newRAGState :: RAGState where
  "newRAGState = \<lparr>processes = [], resources = [], assignments = [], waitingRequests = [],
     eventQueue = [], step = 0, logs = [], avoidance = False\<rparr>"

subsection \<open>Numbers and property order\<close>

text \<open>\<open>Number(x) || 1\<close>: not-a-number and zero both give 1.\<close>

definition numberOr1 :: "int option \<Rightarrow> int" where
  "numberOr1 x = (case x of None \<Rightarrow> 1 | Some n \<Rightarrow> if n = 0 then 1 else n)"

text \<open>\<open>Math.max(1, Number(count) || 1)\<close>.\<close>

definition normCount :: "int option \<Rightarrow> int" where
  "normCount x = max 1 (numberOr1 x)"

text \<open>
  \<open>Object.keys\<close> lists the keys that are array indices (canonical decimal numerals below
  \<open>2^32 - 1\<close>) first, in ascending numeric order, and then the other keys in insertion order.
\<close>

definition is_digit :: "char \<Rightarrow> bool" where
  "is_digit c = (c \<in> set ''0123456789'')"

definition decimal_value :: "string \<Rightarrow> nat" where
  "decimal_value s = foldl (\<lambda>n c. 10 * n + (of_char c - 48)) 0 s"

definition is_array_index :: "string \<Rightarrow> bool" where
  "is_array_index s = (s \<noteq> [] \<and> list_all is_digit s \<and> (hd s \<noteq> CHR ''0'' \<or> length s = 1)
     \<and> decimal_value s < 4294967295)"

definition object_keys :: "(string \<times> 'a) list \<Rightarrow> string list" where
  "object_keys m = (let ks = map fst m
     in sort_key decimal_value (filter is_array_index ks) @ filter (\<lambda>k. \<not> is_array_index k) ks)"

section \<open>Entity registry and ledger\<close>

definition getProcess :: "RAGState \<Rightarrow> string \<Rightarrow> Process option" where
  "getProcess st name = find (\<lambda>p. p_name p = name) (processes st)"

definition getResource :: "RAGState \<Rightarrow> string \<Rightarrow> Resource option" where
  "getResource st name = find (\<lambda>r. r_name r = name) (resources st)"

definition ensureResourceMaps :: "RAGState \<Rightarrow> string \<Rightarrow> RAGState" where
  "ensureResourceMaps st resName =
     (let st1 = (if map_of (assignments st) resName = None
                 then st\<lparr>assignments := assignments st @ [(resName, [])]\<rparr> else st)
      in if map_of (waitingRequests st1) resName = None
         then st1\<lparr>waitingRequests := waitingRequests st1 @ [(resName, [])]\<rparr> else st1)"

text \<open>\<open>this.assignments[resName] || {}\<close> and \<open>this.waitingRequests[resName] || []\<close>.\<close>

definition assignedOf :: "RAGState \<Rightarrow> string \<Rightarrow> (string \<times> int) list" where
  "assignedOf st resName = (case map_of (assignments st) resName of None \<Rightarrow> [] | Some m \<Rightarrow> m)"

definition queueOf :: "RAGState \<Rightarrow> string \<Rightarrow> WaitReq list" where
  "queueOf st resName = (case map_of (waitingRequests st) resName of None \<Rightarrow> [] | Some q \<Rightarrow> q)"

definition availableOf :: "RAGState \<Rightarrow> string \<Rightarrow> int" where
  "availableOf st resName =
     (case getResource st resName of
        None \<Rightarrow> 0
      | Some r \<Rightarrow> r_total r - sum_list (map snd (assignedOf st resName)))"

definition newProcess :: "string \<Rightarrow> Process" where
  "newProcess name = \<lparr>p_name = name, p_state = ready\<rparr>"

definition newResource :: "string \<Rightarrow> int option \<Rightarrow> Resource" where
  "newResource name instances = \<lparr>r_name = name, r_total = max 1 (numberOr1 instances)\<rparr>"

definition addProcess :: "RAGState \<Rightarrow> string \<Rightarrow> RAGState \<times> bool" where
  "addProcess st name =
     (if name = [] \<or> getProcess st name \<noteq> None then (st, False)
      else (st\<lparr>processes := processes st @ [newProcess name]\<rparr>, True))"

definition addResource :: "RAGState \<Rightarrow> string \<Rightarrow> int option \<Rightarrow> RAGState \<times> bool" where
  "addResource st name instances =
     (if name = [] \<or> getResource st name \<noteq> None then (st, False)
      else (ensureResourceMaps (st\<lparr>resources := resources st @ [newResource name instances]\<rparr>) name,
            True))"

definition enqueueEvent :: "RAGState \<Rightarrow> Event \<Rightarrow> RAGState" where
  "enqueueEvent st evt = st\<lparr>eventQueue := eventQueue st @ [evt]\<rparr>"

definition clearEvents :: "RAGState \<Rightarrow> RAGState" where
  "clearEvents st = st\<lparr>eventQueue := []\<rparr>"

text \<open>
  \<open>this.assignments[resName][procName] = v\<close> and the \<open>delete\<close> of that entry, once
  \<open>ensureResourceMaps\<close> has run.
\<close>

definition setAssigned :: "RAGState \<Rightarrow> string \<Rightarrow> string \<Rightarrow> int \<Rightarrow> RAGState" where
  "setAssigned st resName procName v =
     st\<lparr>assignments := AList.update resName (AList.update procName v (assignedOf st resName))
          (assignments st)\<rparr>"

definition deleteAssigned :: "RAGState \<Rightarrow> string \<Rightarrow> string \<Rightarrow> RAGState" where
  "deleteAssigned st resName procName =
     st\<lparr>assignments := AList.update resName (AList.delete procName (assignedOf st resName))
          (assignments st)\<rparr>"

text \<open>
  \<open>if (!a[res][proc]) a[res][proc] = 0; a[res][proc] += count\<close>: a missing entry and an
  entry 0 both count as 0.
\<close>

definition heldOf :: "RAGState \<Rightarrow> string \<Rightarrow> string \<Rightarrow> int" where
  "heldOf st resName procName =
     (case map_of (assignedOf st resName) procName of None \<Rightarrow> 0 | Some n \<Rightarrow> n)"

definition addAssigned :: "RAGState \<Rightarrow> string \<Rightarrow> string \<Rightarrow> int \<Rightarrow> RAGState" where
  "addAssigned st resName procName n =
     setAssigned st resName procName (heldOf st resName procName + n)"

definition setQueue :: "RAGState \<Rightarrow> string \<Rightarrow> WaitReq list \<Rightarrow> RAGState" where
  "setQueue st resName q = st\<lparr>waitingRequests := AList.update resName q (waitingRequests st)\<rparr>"

text \<open>\<open>p.state = s\<close> for \<open>p = getProcess(name)\<close>, the first process of that name.\<close>

fun setFirstState :: "string \<Rightarrow> pstate \<Rightarrow> Process list \<Rightarrow> Process list" where
  "setFirstState name s [] = []"
| "setFirstState name s (p # ps) =
     (if p_name p = name then p\<lparr>p_state := s\<rparr> # ps else p # setFirstState name s ps)"

definition setProcessState :: "RAGState \<Rightarrow> string \<Rightarrow> pstate \<Rightarrow> RAGState" where
  "setProcessState st name s = st\<lparr>processes := setFirstState name s (processes st)\<rparr>"

section \<open>Wait-for graph\<close>

text \<open>
  \<open>buildWFG\<close>: one key per process, each with a \<open>Set\<close> of the processes it waits on
  (a list without repetition, in insertion order). \<open>adj[req.process].add(h)\<close> throws a
  TypeError when \<open>req.process\<close> is not the name of a process; the model returns \<open>None\<close>
  there. The call \<open>state.ensureResourceMaps(r.name)\<close> also creates the missing containers
  of \<open>state\<close> itself; the model threads that state through the loop and returns the graph.
\<close>

type_synonym adjacency = "(string \<times> string list) list"

definition set_add :: "'a \<Rightarrow> 'a list \<Rightarrow> 'a list" where
  "set_add x xs = (if x \<in> set xs then xs else xs @ [x])"

fun addHolders :: "adjacency \<Rightarrow> string \<Rightarrow> string list \<Rightarrow> adjacency option" where
  "addHolders adj w [] = Some adj"
| "addHolders adj w (h # hs) =
     (case map_of adj w of
        None \<Rightarrow> None
      | Some s \<Rightarrow> addHolders (AList.update w (set_add h s) adj) w hs)"

fun addWaiters :: "adjacency \<Rightarrow> int \<Rightarrow> string list \<Rightarrow> WaitReq list \<Rightarrow> adjacency option" where
  "addWaiters adj avail holders [] = Some adj"
| "addWaiters adj avail holders (req # q) =
     (if avail \<ge> count req then addWaiters adj avail holders q
      else case addHolders adj (process req) holders of
             None \<Rightarrow> None
           | Some adj' \<Rightarrow> addWaiters adj' avail holders q)"

fun wfgResources :: "RAGState \<Rightarrow> adjacency \<Rightarrow> Resource list \<Rightarrow> adjacency option" where
  "wfgResources st adj [] = Some adj"
| "wfgResources st adj (r # rs) =
     (let st1 = ensureResourceMaps st (r_name r);
          holders = object_keys (assignedOf st1 (r_name r));
          avail = availableOf st1 (r_name r)
      in case addWaiters adj avail holders (queueOf st1 (r_name r)) of
           None \<Rightarrow> None
         | Some adj' \<Rightarrow> wfgResources st1 adj' rs)"

definition buildWFG :: "RAGState \<Rightarrow> adjacency option" where
  "buildWFG st =
     (let adj0 = foldl (\<lambda>adj p. AList.update (p_name p) [] adj) [] (processes st)
      in case wfgResources st adj0 (resources st) of
           None \<Rightarrow> None
         | Some adj \<Rightarrow> Some (map (\<lambda>k. (k, case map_of adj k of None \<Rightarrow> [] | Some vs \<Rightarrow> vs))
                              (object_keys adj)))"

section \<open>Cycle detection\<close>

text \<open>
  \<open>detectCyclesInAdj\<close>: depth-first search with three colours. The closure \<open>dfs\<close> mutates
  \<open>color\<close>, \<open>stack\<close> and \<open>cycles\<close>; the model passes them as a record. \<open>dfs_edges\<close> is the
  loop \<open>for (const v of adj[u])\<close>. The search is only started on white nodes, which are keys
  of \<open>adj\<close>, so \<open>adj[u]\<close> is always an array there.
\<close>

datatype colour = WHITE | GRAY | BLACK

record dfs_state =
  d_color :: "(string \<times> colour) list"
  d_stack :: "string list"
  d_cycles :: "string list list"

definition lastIndexOf :: "'a list \<Rightarrow> 'a \<Rightarrow> nat option" where
  "lastIndexOf xs v =
     (case filter (\<lambda>i. xs ! i = v) (rev [0..<length xs]) of [] \<Rightarrow> None | i # _ \<Rightarrow> Some i)"

definition adjAt :: "adjacency \<Rightarrow> string \<Rightarrow> string list" where
  "adjAt adj u = (case map_of adj u of None \<Rightarrow> [] | Some vs \<Rightarrow> vs)"

text \<open>Termination: every call of \<open>dfs\<close> on a white node turns it gray for good.\<close>

definition whites :: "(string \<times> colour) list \<Rightarrow> nat" where
  "whites cs = length (filter (\<lambda>kc. snd kc = WHITE) cs)"

function dfs :: "adjacency \<Rightarrow> string \<Rightarrow> dfs_state \<Rightarrow> dfs_state"
  and dfs_edges :: "adjacency \<Rightarrow> string list \<Rightarrow> dfs_state \<Rightarrow> dfs_state" where
  "dfs adj u s =
     (let s1 = s\<lparr>d_color := AList.update u GRAY (d_color s), d_stack := d_stack s @ [u]\<rparr>;
          s2 = dfs_edges adj (adjAt adj u) s1
      in s2\<lparr>d_stack := butlast (d_stack s2), d_color := AList.update u BLACK (d_color s2)\<rparr>)"
| "dfs_edges adj [] s = s"
| "dfs_edges adj (v # vs) s =
     (if map_of (d_color s) v = Some WHITE then dfs_edges adj vs (dfs adj v s)
      else if map_of (d_color s) v = Some GRAY then
        dfs_edges adj vs
          (case lastIndexOf (d_stack s) v of
             None \<Rightarrow> s
           | Some idx \<Rightarrow> s\<lparr>d_cycles := d_cycles s @ [drop idx (d_stack s)]\<rparr>)
      else dfs_edges adj vs s)"
  by pat_completeness auto

lemma whites_update_le: "c \<noteq> WHITE \<Longrightarrow> whites (AList.update k c cs) \<le> whites cs"
  by (induction cs) (auto simp: whites_def)

lemma whites_update_less:
  "map_of cs k = Some WHITE \<Longrightarrow> c \<noteq> WHITE \<Longrightarrow> whites (AList.update k c cs) < whites cs"
  by (induction cs) (auto simp: whites_def split: if_splits)

lemma dfs_whites_le:
  "dfs_dfs_edges_dom (Inl (adj, u, s)) \<Longrightarrow> whites (d_color (dfs adj u s)) \<le> whites (d_color s)"
  "dfs_dfs_edges_dom (Inr (adj, vs, s)) \<Longrightarrow> whites (d_color (dfs_edges adj vs s)) \<le> whites (d_color s)"
proof (induct rule: dfs_dfs_edges.pinduct)
  case (1 adj u s)
  have a: "whites (AList.update u GRAY (d_color s)) \<le> whites (d_color s)"
    by (rule whites_update_le) simp
  from 1 show ?case
    apply (simp add: dfs.psimps Let_def)
    apply (rule order_trans[OF whites_update_le]) apply simp
    apply (rule order_trans) apply assumption apply (rule a) done
next
  case (2 adj s)
  then show ?case by (simp add: dfs_edges.psimps)
next
  case (3 adj v vs s)
  then show ?case
    by (auto simp: dfs_edges.psimps split: option.splits intro: order_trans)
qed

termination dfs
proof (relation "measures [\<lambda>x. case x of Inl (adj, u, s) \<Rightarrow> 2 * whites (AList.update u GRAY (d_color s)) + 1
                                   | Inr (adj, vs, s) \<Rightarrow> 2 * whites (d_color s),
                           \<lambda>x. case x of Inl _ \<Rightarrow> 0 | Inr (adj, vs, s) \<Rightarrow> length vs]", goal_cases)
  case 1 show ?case by simp
next
  case (2 adj u s x) then show ?case by simp
next
  case (3 adj v vs s)
  then show ?case using whites_update_less[of "d_color s" v GRAY] by simp
next
  case (4 adj v vs s)
  then show ?case using dfs_whites_le(1)[of adj v s] by auto
next
  case (5 adj v vs s) then show ?case by (auto split: option.splits)
next
  case (6 adj v vs s) then show ?case by simp
qed


declare dfs.simps [simp del]


text \<open>The result \<open>{hasCycle, cycles, involved}\<close> of \<open>detectCyclesInAdj\<close>.\<close>

record CycleInfo =
  c_hasCycle :: bool
  c_cycles :: "string list list"
  c_involved :: "string list"

fun dfs_roots :: "adjacency \<Rightarrow> string list \<Rightarrow> dfs_state \<Rightarrow> dfs_state" where
  "dfs_roots adj [] s = s"
| "dfs_roots adj (u # us) s =
     dfs_roots adj us (if map_of (d_color s) u = Some WHITE then dfs adj u s else s)"

definition detectCyclesInAdj :: "adjacency \<Rightarrow> CycleInfo" where
  "detectCyclesInAdj adj =
     (let s0 = \<lparr>d_color = map (\<lambda>k. (k, WHITE)) (object_keys adj), d_stack = [], d_cycles = []\<rparr>;
          s = dfs_roots adj (object_keys adj) s0
      in \<lparr>c_hasCycle = (length (d_cycles s) > 0), c_cycles = d_cycles s,
          c_involved = foldl (\<lambda>acc x. set_add x acc) [] (concat (d_cycles s))\<rparr>)"

record DeadInfo =
  hasCycle :: bool
  cycles :: "string list list"
  involved :: "string list"
  wfg :: adjacency

definition detectDeadlock :: "RAGState \<Rightarrow> DeadInfo option" where
  "detectDeadlock st =
     (case buildWFG st of
        None \<Rightarrow> None
      | Some g \<Rightarrow> (let r = detectCyclesInAdj g
                   in Some \<lparr>hasCycle = c_hasCycle r, cycles = c_cycles r,
                            involved = c_involved r, wfg = g\<rparr>))"

section \<open>Avoidance engine\<close>

text \<open>
  \<open>cycleUsesOnlySingleInstanceResources\<close>: for each consecutive pair (waiter, holder) of the
  cycle, \<open>edgeScan\<close> is the inner loop over the resources; \<open>None\<close> is its early
  \<open>return false\<close> on a resource with more than one instance, and \<open>Some foundEdge\<close> the
  value of the flag when the loop ends.
\<close>

fun edgeScan :: "RAGState \<Rightarrow> string \<Rightarrow> string \<Rightarrow> Resource list \<Rightarrow> bool \<Rightarrow> bool option" where
  "edgeScan st waiter holder [] foundEdge = Some foundEdge"
| "edgeScan st waiter holder (r # rs) foundEdge =
     (if list_ex (\<lambda>req. process req = waiter) (queueOf st (r_name r))
         \<and> holder \<in> set (object_keys (assignedOf st (r_name r)))
      then (if r_total r > 1 then None else edgeScan st waiter holder rs True)
      else edgeScan st waiter holder rs foundEdge)"

definition cycleUsesOnlySingleInstanceResources :: "string list \<Rightarrow> RAGState \<Rightarrow> bool" where
  "cycleUsesOnlySingleInstanceResources cycleProcesses st =
     list_all (\<lambda>i. edgeScan st (cycleProcesses ! i)
                      (cycleProcesses ! ((i + 1) mod length cycleProcesses)) (resources st) False
                    = Some True)
       [0..<length cycleProcesses]"

record DefiniteInfo =
  dc_hasCycle :: bool
  definite :: bool
  deadInfo :: DeadInfo

definition stateHasDefiniteCycle :: "RAGState \<Rightarrow> DefiniteInfo option" where
  "stateHasDefiniteCycle nextState =
     (case detectDeadlock nextState of
        None \<Rightarrow> None
      | Some info \<Rightarrow>
          if \<not> hasCycle info then Some \<lparr>dc_hasCycle = False, definite = False, deadInfo = info\<rparr>
          else Some \<lparr>dc_hasCycle = True,
                     definite = list_all (\<lambda>cyc. cycleUsesOnlySingleInstanceResources cyc nextState)
                                  (cycles info),
                     deadInfo = info\<rparr>)"

text \<open>
  \<open>serialize\<close> builds a plain object with copies of all fields and \<open>RAGState.from\<close> builds a
  new state from such an object, running the \<open>Resource\<close> constructor (which clamps the total)
  on every resource. In this value model a deep copy is the value itself; the store model
  further down keeps the references.
\<close>

definition serialize :: "RAGState \<Rightarrow> RAGState" where
  "serialize st =
     \<lparr>processes = map (\<lambda>p. \<lparr>p_name = p_name p, p_state = p_state p\<rparr>) (processes st),
      resources = map (\<lambda>r. \<lparr>r_name = r_name r, r_total = r_total r\<rparr>) (resources st),
      assignments = assignments st,
      waitingRequests = waitingRequests st,
      eventQueue = eventQueue st,
      step = step st,
      logs = logs st,
      avoidance = avoidance st\<rparr>"

definition RAGState_from :: "RAGState \<Rightarrow> RAGState" where
  "RAGState_from d =
     \<lparr>processes = map (\<lambda>d. (newProcess (p_name d))\<lparr>p_state := p_state d\<rparr>) (processes d),
      resources = map (\<lambda>d. newResource (r_name d) (Some (r_total d))) (resources d),
      assignments = assignments d,
      waitingRequests = waitingRequests d,
      eventQueue = eventQueue d,
      step = step d,
      logs = logs d,
      avoidance = avoidance d\<rparr>"

text \<open>
  The two speculative tests. \<open>nextAfterWait\<close> and \<open>nextAfterGrant\<close> are the object \<open>next\<close>
  on which each test runs the detection.
\<close>

definition nextAfterWait :: "RAGState \<Rightarrow> string \<Rightarrow> string \<Rightarrow> int option \<Rightarrow> RAGState" where
  "nextAfterWait st procName resName cnt =
     (let next0 = ensureResourceMaps (RAGState_from (serialize st)) resName;
          next1 = setQueue next0 resName
                    (queueOf next0 resName @ [\<lparr>process = procName, count = normCount cnt\<rparr>])
      in if getProcess next1 procName \<noteq> None then setProcessState next1 procName blocked
         else next1)"

definition addWaitWouldCreateDefiniteCycle ::
  "RAGState \<Rightarrow> string \<Rightarrow> string \<Rightarrow> int option \<Rightarrow> DefiniteInfo option" where
  "addWaitWouldCreateDefiniteCycle st procName resName cnt =
     stateHasDefiniteCycle (nextAfterWait st procName resName cnt)"

definition nextAfterGrant :: "RAGState \<Rightarrow> string \<Rightarrow> string \<Rightarrow> int option \<Rightarrow> RAGState" where
  "nextAfterGrant st procName resName cnt =
     (let next0 = ensureResourceMaps (RAGState_from (serialize st)) resName
      in addAssigned next0 resName procName (normCount cnt))"

definition grantWouldCreateDefiniteCycle ::
  "RAGState \<Rightarrow> string \<Rightarrow> string \<Rightarrow> int option \<Rightarrow> DefiniteInfo option" where
  "grantWouldCreateDefiniteCycle st procName resName cnt =
     stateHasDefiniteCycle (nextAfterGrant st procName resName cnt)"

section \<open>Request, release and the wait queue\<close>

text \<open>
  The operations return the new state and the result object. \<open>None\<close> is an uncaught
  TypeError of the avoidance test (see \<open>buildWFG\<close>). The option \<open>enqueueIfBlocked\<close> is
  the boolean argument.
\<close>

datatype ReqResult =
    InvalidRef              \<comment> \<open>ok false, reason 'Invalid process or resource'\<close>
  | AvoidedCycle            \<comment> \<open>ok false, reason 'Avoided cycle (definite)'\<close>
  | Granted                 \<comment> \<open>ok true, granted true\<close>
  | AvoidedWaitCycle        \<comment> \<open>ok false, reason 'Avoided waiting cycle (definite)'\<close>
  | Queued                  \<comment> \<open>ok true, granted false, queued true\<close>
  | InsufficientNotQueued   \<comment> \<open>ok false, reason 'Insufficient resources and not enqueued'\<close>

datatype RelResult =
    RelInvalidRef           \<comment> \<open>ok false, reason 'Invalid process or resource'\<close>
  | Released int            \<comment> \<open>ok true, released n\<close>

definition pushLog :: "RAGState \<Rightarrow> log_entry \<Rightarrow> RAGState" where
  "pushLog st l = st\<lparr>logs := logs st @ [l]\<rparr>"

definition commitGrant :: "RAGState \<Rightarrow> string \<Rightarrow> string \<Rightarrow> int \<Rightarrow> RAGState" where
  "commitGrant st procName resName cnt =
     (let st1 = addAssigned st resName procName cnt
      in pushLog st1 (GrantedLog procName cnt resName (availableOf st1 resName)))"

definition commitWait :: "RAGState \<Rightarrow> string \<Rightarrow> string \<Rightarrow> int \<Rightarrow> RAGState" where
  "commitWait st procName resName cnt =
     (let st1 = setQueue st resName (queueOf st resName @ [\<lparr>process = procName, count = cnt\<rparr>]);
          st2 = setProcessState st1 procName blocked
      in pushLog st2 (BlockedLog procName cnt resName))"

definition request ::
  "RAGState \<Rightarrow> string \<Rightarrow> string \<Rightarrow> int option \<Rightarrow> bool \<Rightarrow> (RAGState \<times> ReqResult) option" where
  "request st procName resName cnt0 enqueueIfBlocked =
     (if getProcess st procName = None \<or> getResource st resName = None then Some (st, InvalidRef)
      else
        let st1 = ensureResourceMaps st resName;
            cnt = normCount cnt0;
            avail = availableOf st1 resName
        in if avail \<ge> cnt then
             (if avoidance st1 then
                (case grantWouldCreateDefiniteCycle st1 procName resName (Some cnt) of
                   None \<Rightarrow> None
                 | Some info \<Rightarrow>
                     if dc_hasCycle info \<and> definite info then
                       Some (pushLog st1 (AvoidedGrantLog cnt resName procName
                                            (cycles (deadInfo info))), AvoidedCycle)
                     else if dc_hasCycle info \<and> \<not> definite info then
                       Some (commitGrant (pushLog st1 (AllowedGrantLog cnt resName procName))
                               procName resName cnt, Granted)
                     else Some (commitGrant st1 procName resName cnt, Granted))
              else Some (commitGrant st1 procName resName cnt, Granted))
           else if enqueueIfBlocked then
             (if avoidance st1 then
                (case addWaitWouldCreateDefiniteCycle st1 procName resName (Some cnt) of
                   None \<Rightarrow> None
                 | Some info \<Rightarrow>
                     if dc_hasCycle info \<and> definite info then
                       Some (pushLog st1 (AvoidedWaitLog procName resName
                                            (cycles (deadInfo info))), AvoidedWaitCycle)
                     else if dc_hasCycle info \<and> \<not> definite info then
                       Some (commitWait (pushLog st1 (AllowedWaitLog procName resName))
                               procName resName cnt, Queued)
                     else Some (commitWait st1 procName resName cnt, Queued))
              else Some (commitWait st1 procName resName cnt, Queued))
           else Some (st1, InsufficientNotQueued))"

text \<open>
  \<open>tryGrantWaiting\<close>: the \<open>while\<close> loop over the index \<open>i\<close>; \<open>grantFromQueue\<close> is the body of
  a grant, with \<open>splice(i, 1)\<close>.
\<close>

definition grantFromQueue :: "RAGState \<Rightarrow> string \<Rightarrow> nat \<Rightarrow> WaitReq \<Rightarrow> RAGState" where
  "grantFromQueue st resName i req =
     (let st1 = addAssigned st resName (process req) (count req);
          st2 = setQueue st1 resName (take i (queueOf st1 resName) @ drop (Suc i) (queueOf st1 resName));
          st3 = (if getProcess st2 (process req) \<noteq> None
                 then setProcessState st2 (process req) ready else st2)
      in pushLog st3 (UnblockedLog (process req) (count req) resName))"

lemma queueOf_setQueue [simp]: "queueOf (setQueue st r q) r = q"
  by (simp add: queueOf_def setQueue_def update_conv')

lemma queueOf_frame [simp]:
  "queueOf (addAssigned st r p n) r' = queueOf st r'"
  "queueOf (setProcessState st p s) r' = queueOf st r'"
  "queueOf (pushLog st l) r' = queueOf st r'"
  by (simp_all add: queueOf_def addAssigned_def setAssigned_def setProcessState_def pushLog_def)

lemma queueOf_grantFromQueue:
  "queueOf (grantFromQueue st r i req) r = take i (queueOf st r) @ drop (Suc i) (queueOf st r)"
  by (simp add: grantFromQueue_def Let_def)

function tryGrantLoop :: "RAGState \<Rightarrow> string \<Rightarrow> nat \<Rightarrow> bool \<Rightarrow> (RAGState \<times> bool) option" where
  "tryGrantLoop st resName i changed =
     (if i < length (queueOf st resName) then
        (let req = queueOf st resName ! i;
             avail = availableOf st resName
         in if avail \<ge> count req then
              (if avoidance st then
                 (case grantWouldCreateDefiniteCycle st (process req) resName (Some (count req)) of
                    None \<Rightarrow> None
                  | Some info \<Rightarrow>
                      if dc_hasCycle info \<and> definite info then tryGrantLoop st resName (i + 1) changed
                      else if dc_hasCycle info \<and> \<not> definite info then
                        tryGrantLoop
                          (grantFromQueue (pushLog st (QueueGrantAllowedLog (process req) resName))
                             resName i req) resName i True
                      else tryGrantLoop (grantFromQueue st resName i req) resName i True)
               else tryGrantLoop (grantFromQueue st resName i req) resName i True)
            else tryGrantLoop st resName (i + 1) changed)
      else Some (st, changed))"
  by pat_completeness auto
termination
  by (relation "measure (\<lambda>(st, resName, i, changed). length (queueOf st resName) - i)")
     (auto simp: queueOf_grantFromQueue)

declare tryGrantLoop.simps [simp del]

definition tryGrantWaiting :: "RAGState \<Rightarrow> string \<Rightarrow> (RAGState \<times> bool) option" where
  "tryGrantWaiting st resName = tryGrantLoop (ensureResourceMaps st resName) resName 0 False"

definition release ::
  "RAGState \<Rightarrow> string \<Rightarrow> string \<Rightarrow> int option \<Rightarrow> (RAGState \<times> RelResult) option" where
  "release st procName resName cnt0 =
     (if getProcess st procName = None \<or> getResource st resName = None then Some (st, RelInvalidRef)
      else
        let st1 = ensureResourceMaps st resName;
            cnt = normCount cnt0;
            held = heldOf st1 resName procName
        in if held \<le> 0 then Some (pushLog st1 (NoOpReleaseLog procName resName), Released 0)
           else
             let rel = min cnt held;
                 st2 = setAssigned st1 resName procName (held - rel);
                 st3 = (if held - rel = 0 then deleteAssigned st2 resName procName else st2);
                 st4 = pushLog st3 (ReleasedLog procName rel resName (availableOf st3 resName))
             in case tryGrantWaiting st4 resName of
                  None \<Rightarrow> None
                | Some (st5, changed) \<Rightarrow> Some (st5, Released rel))"

section \<open>Simulation step\<close>

text \<open>
  \<open>grantAll\<close> is the loop \<open>for (const r of this.resources) changed = tryGrantWaiting(r.name) || changed\<close>,
  \<open>recomputeStates\<close> the final loop of \<open>stepForward\<close>, whose option \<open>autoGrant\<close> is the
  boolean argument.
\<close>

fun grantAll :: "RAGState \<Rightarrow> Resource list \<Rightarrow> bool \<Rightarrow> (RAGState \<times> bool) option" where
  "grantAll st [] changed = Some (st, changed)"
| "grantAll st (r # rs) changed =
     (case tryGrantWaiting st (r_name r) of
        None \<Rightarrow> None
      | Some (st', c) \<Rightarrow> grantAll st' rs (c \<or> changed))"

definition hasWaitEntry :: "RAGState \<Rightarrow> string \<Rightarrow> bool" where
  "hasWaitEntry st name =
     list_ex (\<lambda>r. list_ex (\<lambda>req. process req = name) (queueOf st (r_name r))) (resources st)"

definition recomputeStates :: "RAGState \<Rightarrow> RAGState" where
  "recomputeStates st =
     st\<lparr>processes := map (\<lambda>p. p\<lparr>p_state := (if hasWaitEntry st (p_name p) then blocked else ready)\<rparr>)
                        (processes st)\<rparr>"

definition stepForward :: "RAGState \<Rightarrow> bool \<Rightarrow> RAGState option" where
  "stepForward st autoGrant =
     (let st1 = st\<lparr>step := step st + 1\<rparr>
      in case
           (case eventQueue st1 of
              evt # rest \<Rightarrow>
                (let st2 = st1\<lparr>eventQueue := rest\<rparr>
                 in if e_type evt = ''request'' then
                      map_option fst (request st2 (e_process evt) (e_resource evt) (e_count evt) True)
                    else if e_type evt = ''release'' then
                      map_option fst (release st2 (e_process evt) (e_resource evt) (e_count evt))
                    else Some st2)
            | [] \<Rightarrow>
                if autoGrant then
                  (case grantAll st1 (resources st1) False of
                     None \<Rightarrow> None
                   | Some (st2, changed) \<Rightarrow>
                       Some (if \<not> changed then pushLog st2 NoOpStepLog else st2))
                else Some st1)
         of None \<Rightarrow> None
          | Some st3 \<Rightarrow> Some (recomputeStates st3))"

section \<open>Simulator and history\<close>

text \<open>
  The history holds serialized states. The fields \<open>playing\<close> and \<open>speed\<close> belong to the
  playback loop of the user interface and are left out.
\<close>

record Simulator =
  state :: RAGState
  history :: "RAGState list"

definition newSimulator :: Simulator where
  "newSimulator = \<lparr>state = newRAGState, history = [serialize newRAGState]\<rparr>"

definition setAvoidance :: "Simulator \<Rightarrow> bool \<Rightarrow> Simulator" where
  "setAvoidance sim on = sim\<lparr>state := (state sim)\<lparr>avoidance := on\<rparr>\<rparr>"

definition snapshot :: "Simulator \<Rightarrow> Simulator" where
  "snapshot sim =
     (let h = history sim @ [serialize (state sim)]
      in sim\<lparr>history := (if length h > 1000 then tl h else h)\<rparr>)"

definition canStepBack :: "Simulator \<Rightarrow> bool" where
  "canStepBack sim = (length (history sim) > 1)"

definition Simulator_stepForward :: "Simulator \<Rightarrow> bool \<Rightarrow> Simulator option" where
  "Simulator_stepForward sim autoGrant =
     (case stepForward (state sim) autoGrant of
        None \<Rightarrow> None
      | Some st \<Rightarrow> Some (snapshot (sim\<lparr>state := st\<rparr>)))"

definition stepBackward :: "Simulator \<Rightarrow> Simulator" where
  "stepBackward sim =
     (if length (history sim) > 1 then
        (let h = butlast (history sim)
         in sim\<lparr>history := h, state := RAGState_from (last h)\<rparr>)
      else sim)"

definition resetToInitial :: "Simulator \<Rightarrow> Simulator" where
  "resetToInitial sim =
     (case history sim of
        [] \<Rightarrow> sim
      | first # _ \<Rightarrow> sim\<lparr>state := RAGState_from first, history := [first]\<rparr>)"

definition hardReset :: "Simulator \<Rightarrow> Simulator" where
  "hardReset sim = sim\<lparr>state := newRAGState, history := [serialize newRAGState]\<rparr>"

section \<open>Sequences of public operations\<close>

text \<open>
  A caller drives a state through its public operations. \<open>run\<close> performs a list of them
  from left to right; an operation that throws ends the run with \<open>None\<close>.
  \<open>SetAvoidance\<close> is the effect of \<open>Simulator.setAvoidance\<close> on the state.
\<close>

datatype operation =
    AddProcess string
  | AddResource string "int option"
  | Request string string "int option" bool
  | Release string string "int option"
  | TryGrantWaiting string
  | StepForward bool
  | EnqueueEvent Event
  | ClearEvents
  | SetAvoidance bool

fun perform :: "operation \<Rightarrow> RAGState \<Rightarrow> RAGState option" where
  "perform (AddProcess name) st = Some (fst (addProcess st name))"
| "perform (AddResource name instances) st = Some (fst (addResource st name instances))"
| "perform (Request p r c e) st = map_option fst (request st p r c e)"
| "perform (Release p r c) st = map_option fst (release st p r c)"
| "perform (TryGrantWaiting r) st = map_option fst (tryGrantWaiting st r)"
| "perform (StepForward autoGrant) st = stepForward st autoGrant"
| "perform (EnqueueEvent evt) st = Some (enqueueEvent st evt)"
| "perform ClearEvents st = Some (clearEvents st)"
| "perform (SetAvoidance on) st = Some (st\<lparr>avoidance := on\<rparr>)"

fun run :: "operation list \<Rightarrow> RAGState \<Rightarrow> RAGState option" where
  "run [] st = Some st"
| "run (x # xs) st = (case perform x st of None \<Rightarrow> None | Some st' \<Rightarrow> run xs st')"

section \<open>Trace export\<close>

text \<open>
  The exported trace is a JSON document. \<open>JLine\<close> is a log line (a string built from the
  template of its constructor).
\<close>

datatype json =
    JNull
  | JNum int
  | JStr string
  | JBool bool
  | JLine log_entry
  | JArr "json list"
  | JObj "(string \<times> json) list"

definition jsonProcess :: "Process \<Rightarrow> json" where
  "jsonProcess p =
     JObj [(''name'', JStr (p_name p)),
           (''state'', JStr (case p_state p of ready \<Rightarrow> ''ready'' | blocked \<Rightarrow> ''blocked''))]"

definition jsonResource :: "Resource \<Rightarrow> json" where
  "jsonResource r = JObj [(''name'', JStr (r_name r)), (''total'', JNum (r_total r))]"

definition jsonWaitReq :: "WaitReq \<Rightarrow> json" where
  "jsonWaitReq q = JObj [(''process'', JStr (process q)), (''count'', JNum (count q))]"

definition jsonEvent :: "Event \<Rightarrow> json" where
  "jsonEvent e =
     JObj [(''type'', JStr (e_type e)), (''process'', JStr (e_process e)),
           (''resource'', JStr (e_resource e)),
           (''count'', case e_count e of None \<Rightarrow> JNull | Some n \<Rightarrow> JNum n)]"

text \<open>
  A copy and a JSON text list the properties of an object in the order of \<open>Object.keys\<close>:
  \<open>keyOrder\<close> puts the entries of an object in that order.
\<close>

definition keyOrder :: "(string \<times> 'a) list \<Rightarrow> (string \<times> 'a) list" where
  "keyOrder m =
     sort_key (\<lambda>kv. decimal_value (fst kv)) (filter (\<lambda>kv. is_array_index (fst kv)) m)
     @ filter (\<lambda>kv. \<not> is_array_index (fst kv)) m"

definition jsonAssignments :: "(string \<times> (string \<times> int) list) list \<Rightarrow> json" where
  "jsonAssignments a =
     JObj (map (\<lambda>(r, m). (r, JObj (map (\<lambda>(p, n). (p, JNum n)) (keyOrder m)))) (keyOrder a))"

definition jsonQueues :: "(string \<times> WaitReq list) list \<Rightarrow> json" where
  "jsonQueues w = JObj (map (\<lambda>(r, q). (r, JArr (map jsonWaitReq q))) (keyOrder w))"

text \<open>
  The object literal of \<open>serialize\<close>, of which \<open>Simulator.exportTrace\<close> returns one deep
  copy per history entry: \<open>this.history.map(h => deepClone(h))\<close>.
\<close>

definition jsonSnapshot :: "RAGState \<Rightarrow> json" where
  "jsonSnapshot h =
     JObj [(''processes'', JArr (map jsonProcess (processes h))),
           (''resources'', JArr (map jsonResource (resources h))),
           (''assignments'', jsonAssignments (assignments h)),
           (''waitingRequests'', jsonQueues (waitingRequests h)),
           (''eventQueue'', JArr (map jsonEvent (eventQueue h))),
           (''step'', JNum (step h)),
           (''logs'', JArr (map JLine (logs h))),
           (''avoidance'', JBool (avoidance h))]"

definition exportTrace :: "Simulator \<Rightarrow> json list" where
  "exportTrace sim = map jsonSnapshot (history sim)"

text \<open>
  The repository also holds the earlier version of the core, whose \<open>exportTrace\<close> builds
  a record per snapshot: \<open>available\<close> and \<open>queues\<close> come from \<open>Object.fromEntries\<close> over the
  resources, \<open>logs\<close> is \<open>s.logs.slice(-6)\<close>.
\<close>

definition fromEntries :: "(string \<times> 'a) list \<Rightarrow> (string \<times> 'a) list" where
  "fromEntries es = foldl (\<lambda>m (k, v). AList.update k v m) [] es"

definition sliceLast :: "nat \<Rightarrow> 'a list \<Rightarrow> 'a list" where
  "sliceLast n xs = drop (length xs - n) xs"

definition traceRecord_v0 :: "RAGState \<Rightarrow> json" where
  "traceRecord_v0 s =
     JObj [(''step'', JNum (step s)),
           (''processes'', JArr (map jsonProcess (processes s))),
           (''resources'', JArr (map jsonResource (resources s))),
           (''available'', JObj (keyOrder (fromEntries (map (\<lambda>r. (r_name r,
                JNum (r_total r - sum_list (map snd (assignedOf s (r_name r)))))) (resources s))))),
           (''assigned'', jsonAssignments (assignments s)),
           (''queues'', JObj (keyOrder (fromEntries (map (\<lambda>r. (r_name r,
                JArr (map jsonWaitReq (queueOf s (r_name r))))) (resources s))))),
           (''logs'', JArr (map JLine (sliceLast 6 (logs s))))]"

definition exportTrace_v0 :: "Simulator \<Rightarrow> json list" where
  "exportTrace_v0 sim = map traceRecord_v0 (history sim)"

text \<open>The names of the fields of a JSON object, in order.\<close>

definition fieldNames :: "json \<Rightarrow> string list" where
  "fieldNames j = (case j of JObj fs \<Rightarrow> map fst fs | _ \<Rightarrow> [])"

section \<open>The two-process, two-resource scenario\<close>

text \<open>
  \<open>P1\<close> holds the single instance of \<open>R1\<close>, \<open>P2\<close> holds the single instance of \<open>R2\<close>, the
  request of \<open>P1\<close> for \<open>R2\<close> is queued and avoidance is on. The event queue, the step
  counter and the log are arbitrary. \<open>cycleNext\<close> is the speculative copy after the wait
  entry of \<open>P2\<close> on \<open>R1\<close> is added.
\<close>

definition cycleSetup :: "Event list \<Rightarrow> int \<Rightarrow> log_entry list \<Rightarrow> RAGState" where
  "cycleSetup evq n lg =
     \<lparr>processes = [\<lparr>p_name = ''P1'', p_state = blocked\<rparr>, \<lparr>p_name = ''P2'', p_state = ready\<rparr>],
      resources = [\<lparr>r_name = ''R1'', r_total = 1\<rparr>, \<lparr>r_name = ''R2'', r_total = 1\<rparr>],
      assignments = [(''R1'', [(''P1'', 1)]), (''R2'', [(''P2'', 1)])],
      waitingRequests = [(''R1'', []), (''R2'', [\<lparr>process = ''P1'', count = 1\<rparr>])],
      eventQueue = evq, step = n, logs = lg, avoidance = True\<rparr>"

definition cycleNext :: "Event list \<Rightarrow> int \<Rightarrow> log_entry list \<Rightarrow> int \<Rightarrow> RAGState" where
  "cycleNext evq n lg c =
     \<lparr>processes = [\<lparr>p_name = ''P1'', p_state = blocked\<rparr>, \<lparr>p_name = ''P2'', p_state = blocked\<rparr>],
      resources = [\<lparr>r_name = ''R1'', r_total = 1\<rparr>, \<lparr>r_name = ''R2'', r_total = 1\<rparr>],
      assignments = [(''R1'', [(''P1'', 1)]), (''R2'', [(''P2'', 1)])],
      waitingRequests = [(''R1'', [\<lparr>process = ''P2'', count = c\<rparr>]),
                         (''R2'', [\<lparr>process = ''P1'', count = 1\<rparr>])],
      eventQueue = evq, step = n, logs = lg, avoidance = True\<rparr>"



text \<open>A simulator whose live state got the process \<open>P1\<close> after the last snapshot.\<close>

definition unsavedSim :: Simulator where
  "unsavedSim = newSimulator\<lparr>state := fst (addProcess newRAGState ''P1'')\<rparr>"

text \<open>
  The scan of the wait queue as the specification words it: the entries are examined once
  each, first to last; \<open>kept\<close> are the entries already examined and left in the queue,
  \<open>granted\<close> tells whether a grant has occurred. \<open>grantEntry\<close> grants the entry \<open>req\<close> and
  removes it from between \<open>kept\<close> and \<open>rest\<close>.
\<close>

definition grantEntry :: "RAGState \<Rightarrow> string \<Rightarrow> WaitReq list \<Rightarrow> WaitReq \<Rightarrow> WaitReq list \<Rightarrow> RAGState" where
  "grantEntry st resName kept req rest =
     (let st1 = addAssigned st resName (process req) (count req);
          st2 = setQueue st1 resName (kept @ rest);
          st3 = (if getProcess st2 (process req) \<noteq> None
                 then setProcessState st2 (process req) ready else st2)
      in pushLog st3 (UnblockedLog (process req) (count req) resName))"

fun scanQueue ::
  "RAGState \<Rightarrow> string \<Rightarrow> WaitReq list \<Rightarrow> WaitReq list \<Rightarrow> bool \<Rightarrow> (RAGState \<times> bool) option" where
  "scanQueue st resName kept [] granted = Some (st, granted)"
| "scanQueue st resName kept (req # rest) granted =
     (if count req \<le> availableOf st resName then
        (if avoidance st then
           (case grantWouldCreateDefiniteCycle st (process req) resName (Some (count req)) of
              None \<Rightarrow> None
            | Some info \<Rightarrow>
                if dc_hasCycle info \<and> definite info
                then scanQueue st resName (kept @ [req]) rest granted
                else scanQueue
                       (grantEntry
                          (if dc_hasCycle info
                           then pushLog st (QueueGrantAllowedLog (process req) resName) else st)
                          resName kept req rest)
                       resName kept rest True)
         else scanQueue (grantEntry st resName kept req rest) resName kept rest True)
      else scanQueue st resName (kept @ [req]) rest granted)"



text \<open>
  A state with two independent pairs of processes. \<open>P1\<close> holds \<open>R1\<close> and waits for \<open>R2\<close>, which
  \<open>P2\<close> holds (both single-instance). \<open>P3\<close> holds both instances of \<open>R3\<close> and waits for
  \<open>R4\<close>; \<open>P4\<close> holds \<open>R4\<close> and waits for \<open>R3\<close>: a cycle through a multi-instance
  resource. \<open>mixedOps\<close> are public operations that build the state, \<open>mixedNext\<close> is the
  speculative copy once \<open>P2\<close> asks for \<open>R1\<close>.
\<close>

definition mixedOps :: "operation list" where
  "mixedOps =
     [AddProcess ''P1'', AddProcess ''P2'', AddProcess ''P3'', AddProcess ''P4'',
      AddResource ''R1'' (Some 1), AddResource ''R2'' (Some 1), AddResource ''R3'' (Some 2),
      AddResource ''R4'' (Some 1),
      Request ''P1'' ''R1'' (Some 1) True, Request ''P2'' ''R2'' (Some 1) True,
      Request ''P3'' ''R3'' (Some 2) True, Request ''P4'' ''R4'' (Some 1) True,
      Request ''P3'' ''R4'' (Some 1) True, Request ''P4'' ''R3'' (Some 1) True,
      Request ''P1'' ''R2'' (Some 1) True,
      SetAvoidance True]"

definition mixedState :: "log_entry list \<Rightarrow> RAGState" where
  "mixedState lg =
     \<lparr>processes = [\<lparr>p_name = ''P1'', p_state = blocked\<rparr>, \<lparr>p_name = ''P2'', p_state = ready\<rparr>,
                   \<lparr>p_name = ''P3'', p_state = blocked\<rparr>, \<lparr>p_name = ''P4'', p_state = blocked\<rparr>],
      resources = [\<lparr>r_name = ''R1'', r_total = 1\<rparr>, \<lparr>r_name = ''R2'', r_total = 1\<rparr>,
                   \<lparr>r_name = ''R3'', r_total = 2\<rparr>, \<lparr>r_name = ''R4'', r_total = 1\<rparr>],
      assignments = [(''R1'', [(''P1'', 1)]), (''R2'', [(''P2'', 1)]),
                     (''R3'', [(''P3'', 2)]), (''R4'', [(''P4'', 1)])],
      waitingRequests = [(''R1'', []), (''R2'', [\<lparr>process = ''P1'', count = 1\<rparr>]),
                         (''R3'', [\<lparr>process = ''P4'', count = 1\<rparr>]),
                         (''R4'', [\<lparr>process = ''P3'', count = 1\<rparr>])],
      eventQueue = [], step = 0, logs = lg, avoidance = True\<rparr>"

definition mixedLogs :: "log_entry list" where
  "mixedLogs =
     [GrantedLog ''P1'' 1 ''R1'' 0, GrantedLog ''P2'' 1 ''R2'' 0, GrantedLog ''P3'' 2 ''R3'' 0,
      GrantedLog ''P4'' 1 ''R4'' 0, BlockedLog ''P3'' 1 ''R4'', BlockedLog ''P4'' 1 ''R3'',
      BlockedLog ''P1'' 1 ''R2'']"

definition mixedNext :: "log_entry list \<Rightarrow> RAGState" where
  "mixedNext lg =
     (mixedState lg)\<lparr>
       processes := [\<lparr>p_name = ''P1'', p_state = blocked\<rparr>, \<lparr>p_name = ''P2'', p_state = blocked\<rparr>,
                     \<lparr>p_name = ''P3'', p_state = blocked\<rparr>, \<lparr>p_name = ''P4'', p_state = blocked\<rparr>],
       waitingRequests := [(''R1'', [\<lparr>process = ''P2'', count = 1\<rparr>]),
                           (''R2'', [\<lparr>process = ''P1'', count = 1\<rparr>]),
                           (''R3'', [\<lparr>process = ''P4'', count = 1\<rparr>]),
                           (''R4'', [\<lparr>process = ''P3'', count = 1\<rparr>])]\<rparr>"


text \<open>
  The invariants of the reachable states. \<open>ledger_ok\<close>: every ledger entry is positive and
  only registered resources have entries. \<open>queues_ok\<close>: the queue keys are distinct, every
  queued count is at least 1, every queued process is registered, and only registered
  resources have waiters. \<open>avail_ok\<close>: no availability is negative.
\<close>

definition pnames :: "RAGState \<Rightarrow> string set" where
  "pnames st = p_name ` set (processes st)"

definition rnames :: "RAGState \<Rightarrow> string set" where
  "rnames st = r_name ` set (resources st)"

definition ledger_ok :: "RAGState \<Rightarrow> bool" where
  "ledger_ok st \<longleftrightarrow>
     (\<forall>r m. (r, m) \<in> set (assignments st) \<longrightarrow>
        (\<forall>p n. (p, n) \<in> set m \<longrightarrow> 0 < n) \<and> (m \<noteq> [] \<longrightarrow> r \<in> rnames st))"

definition queues_ok :: "RAGState \<Rightarrow> bool" where
  "queues_ok st \<longleftrightarrow>
     distinct (map fst (waitingRequests st)) \<and>
     (\<forall>r q. (r, q) \<in> set (waitingRequests st) \<longrightarrow>
        (\<forall>e \<in> set q. 1 \<le> count e \<and> process e \<in> pnames st) \<and> (q \<noteq> [] \<longrightarrow> r \<in> rnames st))"

definition avail_ok :: "RAGState \<Rightarrow> bool" where
  "avail_ok st \<longleftrightarrow> (\<forall>n. 0 \<le> availableOf st n)"

text \<open>
  \<open>hasEntry\<close>: the process has an entry in some wait queue. \<open>waitersBlocked\<close>: every process
  with an entry is stored as blocked. \<open>keepsStates\<close> excludes the direct calls of \<open>release\<close>
  and \<open>tryGrantWaiting\<close>, which mark a process ready without looking at its other entries.
\<close>

definition hasEntry :: "RAGState \<Rightarrow> string \<Rightarrow> bool" where
  "hasEntry st name =
     list_ex (\<lambda>rq. list_ex (\<lambda>e. process e = name) (snd rq)) (waitingRequests st)"

definition waitersBlocked :: "RAGState \<Rightarrow> bool" where
  "waitersBlocked st =
     list_all (\<lambda>p. hasEntry st (p_name p) \<longrightarrow> p_state p = blocked) (processes st)"

definition keepsStates :: "operation \<Rightarrow> bool" where
  "keepsStates x = (case x of Release p r c \<Rightarrow> False | TryGrantWaiting r \<Rightarrow> False | _ \<Rightarrow> True)"

text \<open>
  A process waiting in two queues: \<open>P2\<close> holds \<open>R1\<close> and \<open>R2\<close>, \<open>P1\<close> waits for both
  (\<open>directPre\<close>). \<open>directAfter\<close> is the state after \<open>P2\<close> releases \<open>R1\<close>, \<open>directStepped\<close> the
  state after one more step.
\<close>

definition directOps :: "operation list" where
  "directOps =
     [AddProcess ''P1'', AddProcess ''P2'', AddResource ''R1'' (Some 1), AddResource ''R2'' (Some 1),
      Request ''P2'' ''R1'' (Some 1) True, Request ''P2'' ''R2'' (Some 1) True,
      Request ''P1'' ''R1'' (Some 1) True, Request ''P1'' ''R2'' (Some 1) True]"

definition directPre :: RAGState where
  "directPre =
     \<lparr>processes = [\<lparr>p_name = ''P1'', p_state = blocked\<rparr>, \<lparr>p_name = ''P2'', p_state = ready\<rparr>],
      resources = [\<lparr>r_name = ''R1'', r_total = 1\<rparr>, \<lparr>r_name = ''R2'', r_total = 1\<rparr>],
      assignments = [(''R1'', [(''P2'', 1)]), (''R2'', [(''P2'', 1)])],
      waitingRequests = [(''R1'', [\<lparr>process = ''P1'', count = 1\<rparr>]),
                         (''R2'', [\<lparr>process = ''P1'', count = 1\<rparr>])],
      eventQueue = [], step = 0,
      logs = [GrantedLog ''P2'' 1 ''R1'' 0, GrantedLog ''P2'' 1 ''R2'' 0,
              BlockedLog ''P1'' 1 ''R1'', BlockedLog ''P1'' 1 ''R2''],
      avoidance = False\<rparr>"

definition directAfter :: RAGState where
  "directAfter =
     \<lparr>processes = [\<lparr>p_name = ''P1'', p_state = ready\<rparr>, \<lparr>p_name = ''P2'', p_state = ready\<rparr>],
      resources = [\<lparr>r_name = ''R1'', r_total = 1\<rparr>, \<lparr>r_name = ''R2'', r_total = 1\<rparr>],
      assignments = [(''R1'', [(''P1'', 1)]), (''R2'', [(''P2'', 1)])],
      waitingRequests = [(''R1'', []), (''R2'', [\<lparr>process = ''P1'', count = 1\<rparr>])],
      eventQueue = [], step = 0,
      logs = [GrantedLog ''P2'' 1 ''R1'' 0, GrantedLog ''P2'' 1 ''R2'' 0,
              BlockedLog ''P1'' 1 ''R1'', BlockedLog ''P1'' 1 ''R2'',
              ReleasedLog ''P2'' 1 ''R1'' 1, UnblockedLog ''P1'' 1 ''R1''],
      avoidance = False\<rparr>"

definition directStepped :: RAGState where
  "directStepped =
     directAfter\<lparr>processes := [\<lparr>p_name = ''P1'', p_state = blocked\<rparr>,
                                \<lparr>p_name = ''P2'', p_state = ready\<rparr>],
                  step := 1, logs := logs directAfter @ [NoOpStepLog]\<rparr>"

definition wf_state :: "RAGState \<Rightarrow> bool" where
  "wf_state st \<longleftrightarrow>
     distinct (map p_name (processes st)) \<and> distinct (map r_name (resources st))
     \<and> ledger_ok st \<and> queues_ok st \<and> avail_ok st"

text \<open>
  A simulator whose next step executes a pending event: \<open>pendingState\<close> is \<open>directPre\<close> with
  the event \<open>release('P2', 'R1', 1)\<close> in its queue, \<open>pendingStepped\<close> the state after the
  step, in which \<open>P2\<close> has released \<open>R1\<close> and \<open>P1\<close> has been granted it from the queue.
\<close>

definition pendingState :: RAGState where
  "pendingState = directPre\<lparr>eventQueue := [\<lparr>e_type = ''release'', e_process = ''P2'',
     e_resource = ''R1'', e_count = Some 1\<rparr>]\<rparr>"

definition pendingStepped :: RAGState where
  "pendingStepped = directAfter\<lparr>processes := [\<lparr>p_name = ''P1'', p_state = blocked\<rparr>,
                                                \<lparr>p_name = ''P2'', p_state = ready\<rparr>], step := 1\<rparr>"

definition pendingSim :: Simulator where
  "pendingSim = \<lparr>state = pendingState, history = [serialize pendingState]\<rparr>"


section \<open>Where the model follows the code\<close>

text \<open>
  The association lists of the model hold the own properties of the program's objects, and
  its integers are exact. The code differs in two places.

  A plain object also has the members of \<open>Object.prototype\<close>. For a name of \<open>inherited\<close>
  that is not an own key, \<open>this.assignments[name]\<close> is the inherited member (a function, or
  \<open>Object.prototype\<close> itself for \<open>__proto__\<close>) where \<open>map_of\<close> finds nothing: no container is
  created for such a resource, a grant to it is written on the shared built-in object, and
  a process of such a name never holds 0. \<open>plainState\<close> says that no name stored in a state
  is inherited, \<open>plainOp\<close> that an operation brings none in. The store model below follows
  the inherited names, and the properties that the program itself adds to
  \<open>Object.prototype\<close>. (A realm in which other code has added properties to
  \<open>Object.prototype\<close> is outside the model throughout.)

  JavaScript numbers are doubles: integers are exact up to \<open>2^53\<close> in absolute value, and a
  sum beyond that is rounded. \<open>exactState\<close> bounds the totals, the held counts with their
  sum per resource and the queued counts of a state, \<open>exactCount\<close> a count argument; within
  these bounds every sum and difference the code computes on the ledger is the integer one.
\<close>

definition inherited :: "string \<Rightarrow> bool" where
  "inherited k \<longleftrightarrow>
     k \<in> set [''constructor'', ''__defineGetter__'', ''__defineSetter__'', ''hasOwnProperty'',
              ''__lookupGetter__'', ''__lookupSetter__'', ''isPrototypeOf'',
              ''propertyIsEnumerable'', ''toString'', ''valueOf'', ''__proto__'',
              ''toLocaleString'']"


definition maxExact :: int where
  "maxExact = 9007199254740992"

definition exactCount :: "int option \<Rightarrow> bool" where
  "exactCount c = (case c of None \<Rightarrow> True | Some n \<Rightarrow> - maxExact \<le> n \<and> n \<le> maxExact)"


fun plainOp :: "operation \<Rightarrow> bool" where
  "plainOp (AddProcess name) = (\<not> inherited name)"
| "plainOp (AddResource name instances) = (\<not> inherited name \<and> exactCount instances)"
| "plainOp (Request p r c e) = exactCount c"
| "plainOp (Release p r c) = exactCount c"
| "plainOp (TryGrantWaiting r) = (\<not> inherited r)"
| "plainOp (EnqueueEvent evt) = exactCount (e_count evt)"
| "plainOp op = True"

section \<open>Store model of the state and the speculative tests\<close>

text \<open>
  The value model above cannot tell a copy from the original. To follow what the two
  speculative tests write, the objects of a state are laid out in a store: a list of cells,
  an address being an index. A state object holds the addresses of its six containers; an
  array holds the addresses of its elements; \<open>assignments\<close> and \<open>waitingRequests\<close> hold,
  per resource name, the address of a map of counts and of a queue. Creating an object appends
  a cell; assigning to a property or pushing on an array overwrites the cell of that object.
  A read of a missing address or of a cell of another kind gives \<open>None\<close>; on the stores that
  hold a state this does not happen.

  Every object literal of the program inherits from \<open>Object.prototype\<close>, one object shared by
  all states and all copies. It is the cell at address 0: \<open>ProtoCell\<close> holds the properties
  that the program has added to it, in the order of their creation; its built-in members are
  the names of \<open>inherited\<close>.
\<close>

type_synonym addr = nat

record StateRefs =
  ref_processes :: addr
  ref_resources :: addr
  ref_assignments :: addr
  ref_waitingRequests :: addr
  ref_eventQueue :: addr
  val_step :: int
  ref_logs :: addr
  val_avoidance :: bool

datatype cell =
    ProcessCell string pstate
  | ResourceCell string int
  | WaitReqCell string int
  | EventCell Event
  | ArrayCell "addr list"
  | LogsCell "log_entry list"
  | CountsCell "(string \<times> int) list"
  | DictCell "(string \<times> addr) list"
  | StateCell StateRefs
  | ProtoCell "(string \<times> int) list"

type_synonym heap = "cell list"

definition getCell :: "heap \<Rightarrow> addr \<Rightarrow> cell option" where
  "getCell h a = (if a < length h then Some (h ! a) else None)"

definition protoProps :: "heap \<Rightarrow> (string \<times> int) list option" where
  "protoProps h = (case getCell h 0 of Some (ProtoCell ex) \<Rightarrow> Some ex | _ \<Rightarrow> None)"

text \<open>
  What \<open>obj[k]\<close> finds for an object literal \<open>obj\<close> with the own properties \<open>kvs\<close>: an own
  property; else, for \<open>__proto__\<close>, the accessor of \<open>Object.prototype\<close>, which returns
  \<open>Object.prototype\<close> itself; else one of its built-in functions; else a number that the
  program has stored on \<open>Object.prototype\<close>; else nothing (\<open>undefined\<close>). An object, a function
  and a number other than 0 are truthy.
\<close>

datatype 'a slot = OwnSlot 'a | ThePrototype | BuiltinMember | InheritedNumber int | NoSlot

definition slotOf :: "(string \<times> int) list \<Rightarrow> (string \<times> 'a) list \<Rightarrow> string \<Rightarrow> 'a slot" where
  "slotOf ex kvs k =
     (case map_of kvs k of
        Some v \<Rightarrow> OwnSlot v
      | None \<Rightarrow>
          if k = ''__proto__'' then ThePrototype
          else if inherited k then BuiltinMember
          else (case map_of ex k of Some n \<Rightarrow> InheritedNumber n | None \<Rightarrow> NoSlot))"

fun holdsObject :: "addr slot \<Rightarrow> bool" where
  "holdsObject (OwnSlot a) = True"
| "holdsObject ThePrototype = True"
| "holdsObject BuiltinMember = True"
| "holdsObject (InheritedNumber n) = (n \<noteq> 0)"
| "holdsObject NoSlot = False"

text \<open>
  Copies of the flat objects. \<open>rebuildResource\<close> is the copy that \<open>RAGState.from\<close> makes:
  it runs the \<open>Resource\<close> constructor, which clamps the total.
\<close>

definition copyProcess :: "cell \<Rightarrow> cell option" where
  "copyProcess c = (case c of ProcessCell n s \<Rightarrow> Some (ProcessCell n s) | _ \<Rightarrow> None)"

definition copyResource :: "cell \<Rightarrow> cell option" where
  "copyResource c = (case c of ResourceCell n t \<Rightarrow> Some (ResourceCell n t) | _ \<Rightarrow> None)"

definition rebuildResource :: "cell \<Rightarrow> cell option" where
  "rebuildResource c =
     (case c of ResourceCell n t \<Rightarrow> Some (ResourceCell n (r_total (newResource n (Some t))))
      | _ \<Rightarrow> None)"

definition copyWaitReq :: "cell \<Rightarrow> cell option" where
  "copyWaitReq c = (case c of WaitReqCell p n \<Rightarrow> Some (WaitReqCell p n) | _ \<Rightarrow> None)"

definition copyEvent :: "cell \<Rightarrow> cell option" where
  "copyEvent c = (case c of EventCell e \<Rightarrow> Some (EventCell e) | _ \<Rightarrow> None)"

text \<open>
  \<open>deepClone\<close> and the two \<open>map\<close> calls of \<open>serialize\<close> and \<open>from\<close>: every object reached is
  created anew. An object reached twice is copied twice, as the JSON fallback of \<open>deepClone\<close>
  does; \<open>structuredClone\<close> would copy it once, into a new object as well.
\<close>

fun copyCells :: "(cell \<Rightarrow> cell option) \<Rightarrow> heap \<Rightarrow> addr list \<Rightarrow> (heap \<times> addr list) option" where
  "copyCells f h [] = Some (h, [])"
| "copyCells f h (a # as) = do {
     c \<leftarrow> getCell h a;
     c' \<leftarrow> f c;
     (h', bs) \<leftarrow> copyCells f (h @ [c']) as;
     Some (h', length h # bs)
   }"

definition cloneArray :: "(cell \<Rightarrow> cell option) \<Rightarrow> heap \<Rightarrow> addr \<Rightarrow> (heap \<times> addr) option" where
  "cloneArray f h a = do {
     c \<leftarrow> getCell h a;
     case c of
       ArrayCell as \<Rightarrow> do {
         (h1, bs) \<leftarrow> copyCells f h as;
         Some (h1 @ [ArrayCell bs], length h1)
       }
     | _ \<Rightarrow> None
   }"

definition cloneCounts :: "heap \<Rightarrow> addr \<Rightarrow> (heap \<times> addr) option" where
  "cloneCounts h a = do {
     c \<leftarrow> getCell h a;
     case c of CountsCell m \<Rightarrow> Some (h @ [CountsCell m], length h) | _ \<Rightarrow> None
   }"

definition cloneLogs :: "heap \<Rightarrow> addr \<Rightarrow> (heap \<times> addr) option" where
  "cloneLogs h a = do {
     c \<leftarrow> getCell h a;
     case c of LogsCell ls \<Rightarrow> Some (h @ [LogsCell ls], length h) | _ \<Rightarrow> None
   }"

fun cloneEntries ::
  "(heap \<Rightarrow> addr \<Rightarrow> (heap \<times> addr) option) \<Rightarrow> heap \<Rightarrow> (string \<times> addr) list
     \<Rightarrow> (heap \<times> (string \<times> addr) list) option" where
  "cloneEntries g h [] = Some (h, [])"
| "cloneEntries g h (ka # kvs) = do {
     (h1, b) \<leftarrow> g h (snd ka);
     (h2, kvs') \<leftarrow> cloneEntries g h1 kvs;
     Some (h2, (fst ka, b) # kvs')
   }"

definition cloneDict ::
  "(heap \<Rightarrow> addr \<Rightarrow> (heap \<times> addr) option) \<Rightarrow> heap \<Rightarrow> addr \<Rightarrow> (heap \<times> addr) option" where
  "cloneDict g h a = do {
     c \<leftarrow> getCell h a;
     case c of
       DictCell kvs \<Rightarrow> do {
         (h1, kvs') \<leftarrow> cloneEntries g h kvs;
         Some (h1 @ [DictCell kvs'], length h1)
       }
     | _ \<Rightarrow> None
   }"

definition cloneState ::
  "(cell \<Rightarrow> cell option) \<Rightarrow> heap \<Rightarrow> addr \<Rightarrow> (heap \<times> addr) option" where
  "cloneState fR h a = do {
     c \<leftarrow> getCell h a;
     case c of
       StateCell refs \<Rightarrow> do {
         (h1, ps) \<leftarrow> cloneArray copyProcess h (ref_processes refs);
         (h2, rs) \<leftarrow> cloneArray fR h1 (ref_resources refs);
         (h3, asg) \<leftarrow> cloneDict cloneCounts h2 (ref_assignments refs);
         (h4, wr) \<leftarrow> cloneDict (cloneArray copyWaitReq) h3 (ref_waitingRequests refs);
         (h5, evq) \<leftarrow> cloneArray copyEvent h4 (ref_eventQueue refs);
         (h6, lg) \<leftarrow> cloneLogs h5 (ref_logs refs);
         Some (h6 @ [StateCell \<lparr>ref_processes = ps, ref_resources = rs, ref_assignments = asg,
                       ref_waitingRequests = wr, ref_eventQueue = evq, val_step = val_step refs,
                       ref_logs = lg, val_avoidance = val_avoidance refs\<rparr>], length h6)
       }
     | _ \<Rightarrow> None
   }"

text \<open>
  \<open>serialize\<close> returns a new plain object; \<open>RAGState.from\<close> first runs the constructor, which
  creates six empty containers, and then replaces each of them by a copy of the field of
  \<open>data\<close>.
\<close>

definition serialize_h :: "heap \<Rightarrow> addr \<Rightarrow> (heap \<times> addr) option" where
  "serialize_h h a = cloneState copyResource h a"

definition from_h :: "heap \<Rightarrow> addr \<Rightarrow> (heap \<times> addr) option" where
  "from_h h d =
     cloneState rebuildResource
       (h @ [ArrayCell [], ArrayCell [], DictCell [], DictCell [], ArrayCell [], LogsCell []]) d"

text \<open>
  The writes that the tests make through \<open>next\<close>. \<open>ensureResourceMaps\<close> creates a container
  when \<open>!this.assignments[resName]\<close> holds, so none for a name under which something truthy is
  inherited. A write that raises a \<open>TypeError\<close> gives \<open>TypeError\<close>; the result \<open>None\<close> marks a
  write that the model does not follow, because it stores a string.
\<close>

datatype 'a attempt = Done 'a | TypeError

definition ensureResourceMaps_h :: "heap \<Rightarrow> addr \<Rightarrow> string \<Rightarrow> heap option" where
  "ensureResourceMaps_h h a resName = do {
     ex \<leftarrow> protoProps h;
     c \<leftarrow> getCell h a;
     case c of
       StateCell refs \<Rightarrow> do {
         ca \<leftarrow> getCell h (ref_assignments refs);
         h1 \<leftarrow> (case ca of
                  DictCell kvs \<Rightarrow>
                    Some (if holdsObject (slotOf ex kvs resName) then h
                          else (h @ [CountsCell []])
                                 [ref_assignments refs := DictCell (kvs @ [(resName, length h)])])
                | _ \<Rightarrow> None);
         cw \<leftarrow> getCell h1 (ref_waitingRequests refs);
         (case cw of
            DictCell kvs \<Rightarrow>
              Some (if holdsObject (slotOf ex kvs resName) then h1
                    else (h1 @ [ArrayCell []])
                           [ref_waitingRequests refs := DictCell (kvs @ [(resName, length h1)])])
          | _ \<Rightarrow> None)
       }
     | _ \<Rightarrow> None
   }"

text \<open>
  \<open>next.waitingRequests[resName].push(...)\<close>: only an own queue has a \<open>push\<close>; on
  \<open>Object.prototype\<close>, on a function, on a number and on \<open>undefined\<close> the call raises.
\<close>

definition pushWait_h :: "heap \<Rightarrow> addr \<Rightarrow> string \<Rightarrow> string \<Rightarrow> int \<Rightarrow> heap attempt option" where
  "pushWait_h h a resName procName cnt = do {
     ex \<leftarrow> protoProps h;
     c \<leftarrow> getCell h a;
     case c of
       StateCell refs \<Rightarrow> do {
         cw \<leftarrow> getCell h (ref_waitingRequests refs);
         case cw of
           DictCell kvs \<Rightarrow>
             (case slotOf ex kvs resName of
                OwnSlot qa \<Rightarrow> do {
                  cq \<leftarrow> getCell h qa;
                  case cq of
                    ArrayCell es \<Rightarrow>
                      Some (Done ((h @ [WaitReqCell procName cnt])[qa := ArrayCell (es @ [length h])]))
                  | _ \<Rightarrow> None
                }
              | _ \<Rightarrow> Some TypeError)
         | _ \<Rightarrow> None
       }
     | _ \<Rightarrow> None
   }"

fun markFirst_h :: "heap \<Rightarrow> string \<Rightarrow> pstate \<Rightarrow> addr list \<Rightarrow> heap option" where
  "markFirst_h h name s [] = Some h"
| "markFirst_h h name s (a # as) = do {
     c \<leftarrow> getCell h a;
     case c of
       ProcessCell n t \<Rightarrow> if n = name then Some (h[a := ProcessCell n s]) else markFirst_h h name s as
     | _ \<Rightarrow> None
   }"

definition markBlocked_h :: "heap \<Rightarrow> addr \<Rightarrow> string \<Rightarrow> heap option" where
  "markBlocked_h h a procName = do {
     c \<leftarrow> getCell h a;
     case c of
       StateCell refs \<Rightarrow> do {
         cp \<leftarrow> getCell h (ref_processes refs);
         case cp of ArrayCell ps \<Rightarrow> markFirst_h h procName blocked ps | _ \<Rightarrow> None
       }
     | _ \<Rightarrow> None
   }"

text \<open>
  The two statements \<open>if (!m[resName][procName]) m[resName][procName] = 0\<close> and
  \<open>m[resName][procName] += count\<close>. With an own map of counts they set the own count of the
  process to what is read under its name, own or inherited, plus \<open>count\<close>. Under the name
  \<open>__proto__\<close> a map without such an own key reads \<open>Object.prototype\<close> and the assignment goes
  to the setter, which ignores a value that is no object: nothing is written. When
  \<open>m[resName]\<close> is \<open>Object.prototype\<close>, the count is stored there, at address 0. On a number
  and on \<open>undefined\<close> the statements raise (class bodies are strict code). A built-in function
  read as a count is concatenated to a string, which is not followed.
\<close>

definition addCount_h :: "heap \<Rightarrow> addr \<Rightarrow> string \<Rightarrow> string \<Rightarrow> int \<Rightarrow> heap attempt option" where
  "addCount_h h a resName procName cnt = do {
     ex \<leftarrow> protoProps h;
     c \<leftarrow> getCell h a;
     case c of
       StateCell refs \<Rightarrow> do {
         ca \<leftarrow> getCell h (ref_assignments refs);
         case ca of
           DictCell kvs \<Rightarrow>
             (case slotOf ex kvs resName of
                OwnSlot ma \<Rightarrow> do {
                  cm \<leftarrow> getCell h ma;
                  case cm of
                    CountsCell m \<Rightarrow>
                      (case slotOf ex m procName of
                         OwnSlot v \<Rightarrow> Some (Done (h[ma := CountsCell (AList.update procName (v + cnt) m)]))
                       | InheritedNumber v \<Rightarrow>
                           Some (Done (h[ma := CountsCell (AList.update procName (v + cnt) m)]))
                       | NoSlot \<Rightarrow> Some (Done (h[ma := CountsCell (AList.update procName cnt m)]))
                       | ThePrototype \<Rightarrow> Some (Done h)
                       | BuiltinMember \<Rightarrow> None)
                  | _ \<Rightarrow> None
                }
              | ThePrototype \<Rightarrow>
                  if procName = ''__proto__'' then Some (Done h)
                  else if inherited procName then None
                  else Some (Done (h[0 := ProtoCell (AList.update procName
                         ((case map_of ex procName of None \<Rightarrow> 0 | Some v \<Rightarrow> v) + cnt) ex)]))
              | BuiltinMember \<Rightarrow> None
              | InheritedNumber v \<Rightarrow> Some TypeError
              | NoSlot \<Rightarrow> Some TypeError)
         | _ \<Rightarrow> None
       }
     | _ \<Rightarrow> None
   }"

text \<open>
  \<open>this.assignments[resName][procName] || 0\<close>, the count that \<open>release\<close> reads as held by a
  process, own or inherited. The result is \<open>None\<close> also where the value read is no number.
\<close>

definition heldOf_h :: "heap \<Rightarrow> addr \<Rightarrow> string \<Rightarrow> string \<Rightarrow> int option" where
  "heldOf_h h a resName procName = do {
     ex \<leftarrow> protoProps h;
     c \<leftarrow> getCell h a;
     case c of
       StateCell refs \<Rightarrow> do {
         ca \<leftarrow> getCell h (ref_assignments refs);
         case ca of
           DictCell kvs \<Rightarrow>
             (case slotOf ex kvs resName of
                OwnSlot ma \<Rightarrow> do {
                  cm \<leftarrow> getCell h ma;
                  case cm of
                    CountsCell m \<Rightarrow>
                      (case slotOf ex m procName of
                         OwnSlot v \<Rightarrow> Some v
                       | InheritedNumber v \<Rightarrow> Some v
                       | NoSlot \<Rightarrow> Some 0
                       | _ \<Rightarrow> None)
                  | _ \<Rightarrow> None
                }
              | ThePrototype \<Rightarrow>
                  if procName = ''__proto__'' then Some 0
                  else if inherited procName then None
                  else Some (case map_of ex procName of None \<Rightarrow> 0 | Some v \<Rightarrow> v)
              | _ \<Rightarrow> None)
         | _ \<Rightarrow> None
       }
     | _ \<Rightarrow> None
   }"

text \<open>The state that a store holds at an address, as a value of the model above.\<close>

definition readCells :: "(cell \<Rightarrow> 'a option) \<Rightarrow> heap \<Rightarrow> addr list \<Rightarrow> 'a list option" where
  "readCells f h as = those (map (\<lambda>a. Option.bind (getCell h a) f) as)"

definition readArray :: "(cell \<Rightarrow> 'a option) \<Rightarrow> heap \<Rightarrow> addr \<Rightarrow> 'a list option" where
  "readArray f h a = do {
     c \<leftarrow> getCell h a;
     case c of ArrayCell as \<Rightarrow> readCells f h as | _ \<Rightarrow> None
   }"

definition readDict :: "(heap \<Rightarrow> addr \<Rightarrow> 'a option) \<Rightarrow> heap \<Rightarrow> addr \<Rightarrow> (string \<times> 'a) list option" where
  "readDict g h a = do {
     c \<leftarrow> getCell h a;
     case c of
       DictCell kvs \<Rightarrow> those (map (\<lambda>ka. map_option (Pair (fst ka)) (g h (snd ka))) kvs)
     | _ \<Rightarrow> None
   }"

definition asProcess :: "cell \<Rightarrow> Process option" where
  "asProcess c = (case c of ProcessCell n s \<Rightarrow> Some \<lparr>p_name = n, p_state = s\<rparr> | _ \<Rightarrow> None)"

definition asResource :: "cell \<Rightarrow> Resource option" where
  "asResource c = (case c of ResourceCell n t \<Rightarrow> Some \<lparr>r_name = n, r_total = t\<rparr> | _ \<Rightarrow> None)"

definition asWaitReq :: "cell \<Rightarrow> WaitReq option" where
  "asWaitReq c = (case c of WaitReqCell p n \<Rightarrow> Some \<lparr>process = p, count = n\<rparr> | _ \<Rightarrow> None)"

definition asEvent :: "cell \<Rightarrow> Event option" where
  "asEvent c = (case c of EventCell e \<Rightarrow> Some e | _ \<Rightarrow> None)"

definition readCounts :: "heap \<Rightarrow> addr \<Rightarrow> (string \<times> int) list option" where
  "readCounts h a = do { c \<leftarrow> getCell h a; case c of CountsCell m \<Rightarrow> Some m | _ \<Rightarrow> None }"

definition readLogs :: "heap \<Rightarrow> addr \<Rightarrow> log_entry list option" where
  "readLogs h a = do { c \<leftarrow> getCell h a; case c of LogsCell ls \<Rightarrow> Some ls | _ \<Rightarrow> None }"

definition readState :: "heap \<Rightarrow> addr \<Rightarrow> RAGState option" where
  "readState h a = do {
     c \<leftarrow> getCell h a;
     case c of
       StateCell refs \<Rightarrow> do {
         ps \<leftarrow> readArray asProcess h (ref_processes refs);
         rs \<leftarrow> readArray asResource h (ref_resources refs);
         asg \<leftarrow> readDict readCounts h (ref_assignments refs);
         wr \<leftarrow> readDict (readArray asWaitReq) h (ref_waitingRequests refs);
         evq \<leftarrow> readArray asEvent h (ref_eventQueue refs);
         lg \<leftarrow> readLogs h (ref_logs refs);
         Some \<lparr>processes = ps, resources = rs, assignments = asg, waitingRequests = wr,
               eventQueue = evq, step = val_step refs, logs = lg,
               avoidance = val_avoidance refs\<rparr>
       }
     | _ \<Rightarrow> None
   }"

text \<open>
  \<open>stateHasDefiniteCycle\<close> writes only through \<open>buildWFG\<close>, which calls
  \<open>ensureResourceMaps\<close> for every resource of the state it is given and then iterates over
  \<open>state.waitingRequests[r.name]\<close>. When that is no own queue it was found truthy on
  \<open>Object.prototype\<close> and is not iterable: the loop raises a \<open>TypeError\<close> at that resource
  (\<open>ensureEach\<close> returns \<open>True\<close>). Everything else is a read. As long as the program has
  stored nothing on \<open>Object.prototype\<close> and no process is named \<open>__proto__\<close> (the graph is
  itself an object literal keyed by process names), the reads find own properties only, and
  the analysis is the function of the value model on the state read from the store; its
  \<open>None\<close> is the other \<open>TypeError\<close> of \<open>buildWFG\<close>, for a queued process that is not
  registered. Otherwise the analysis is \<open>NotFollowed\<close>. When \<open>buildWFG\<close> raises midway, the
  source has created the missing containers of the resources seen so far only, all of them in
  the same state object.
\<close>

definition ownQueue :: "heap \<Rightarrow> addr \<Rightarrow> string \<Rightarrow> bool option" where
  "ownQueue h a resName = do {
     c \<leftarrow> getCell h a;
     case c of
       StateCell refs \<Rightarrow> do {
         cw \<leftarrow> getCell h (ref_waitingRequests refs);
         case cw of DictCell kvs \<Rightarrow> Some (map_of kvs resName \<noteq> None) | _ \<Rightarrow> None
       }
     | _ \<Rightarrow> None
   }"

fun ensureEach :: "heap \<Rightarrow> addr \<Rightarrow> string list \<Rightarrow> (heap \<times> bool) option" where
  "ensureEach h a [] = Some (h, False)"
| "ensureEach h a (n # ns) = do {
     h1 \<leftarrow> ensureResourceMaps_h h a n;
     own \<leftarrow> ownQueue h1 a n;
     if own then ensureEach h1 a ns else Some (h1, True)
   }"

datatype outcome = Verdict DefiniteInfo | Thrown | NotFollowed

definition stateHasDefiniteCycle_h :: "heap \<Rightarrow> addr \<Rightarrow> (heap \<times> outcome) option" where
  "stateHasDefiniteCycle_h h a = do {
     st \<leftarrow> readState h a;
     (h1, raised) \<leftarrow> ensureEach h a (map r_name (resources st));
     ex \<leftarrow> protoProps h1;
     if raised then Some (h1, Thrown)
     else if ex = [] \<and> ''__proto__'' \<notin> set (map p_name (processes st)) then do {
       st1 \<leftarrow> readState h1 a;
       Some (h1, case stateHasDefiniteCycle st1 of None \<Rightarrow> Thrown | Some info \<Rightarrow> Verdict info)
     }
     else Some (h1, NotFollowed)
   }"

definition addWaitWouldCreateDefiniteCycle_h ::
  "heap \<Rightarrow> addr \<Rightarrow> string \<Rightarrow> string \<Rightarrow> int option \<Rightarrow> (heap \<times> outcome) option" where
  "addWaitWouldCreateDefiniteCycle_h h a procName resName cnt = do {
     (h1, d) \<leftarrow> serialize_h h a;
     (h2, next) \<leftarrow> from_h h1 d;
     h3 \<leftarrow> ensureResourceMaps_h h2 next resName;
     w \<leftarrow> pushWait_h h3 next resName procName (normCount cnt);
     case w of
       TypeError \<Rightarrow> Some (h3, Thrown)
     | Done h4 \<Rightarrow> do {
         h5 \<leftarrow> markBlocked_h h4 next procName;
         stateHasDefiniteCycle_h h5 next
       }
   }"

definition grantWouldCreateDefiniteCycle_h ::
  "heap \<Rightarrow> addr \<Rightarrow> string \<Rightarrow> string \<Rightarrow> int option \<Rightarrow> (heap \<times> outcome) option" where
  "grantWouldCreateDefiniteCycle_h h a procName resName cnt = do {
     (h1, d) \<leftarrow> serialize_h h a;
     (h2, next) \<leftarrow> from_h h1 d;
     h3 \<leftarrow> ensureResourceMaps_h h2 next resName;
     w \<leftarrow> addCount_h h3 next resName procName (normCount cnt);
     case w of
       TypeError \<Rightarrow> Some (h3, Thrown)
     | Done h4 \<Rightarrow> stateHasDefiniteCycle_h h4 next
   }"

text \<open>
  The public operations of a live state in the store, as far as the sequences below need
  them: the constructor, \<open>addProcess\<close>, \<open>addResource\<close> and \<open>request\<close>. \<open>findNamed\<close> is
  \<open>Array.prototype.find\<close> with the test \<open>x.name === name\<close>; \<open>availableOf_h\<close> sums
  \<open>Object.values(this.assignments[resName] || {})\<close>, which are the own counts of an own map,
  the properties that the program has stored on \<open>Object.prototype\<close> when \<open>resName\<close> is
  \<open>__proto__\<close>, and nothing for a function or a number. The result \<open>TypeError\<close> of
  \<open>request_h\<close> is an uncaught \<open>TypeError\<close>; \<open>None\<close> is a run that the model does not follow.
\<close>

definition newState_h :: "heap \<Rightarrow> heap \<times> addr" where
  "newState_h h =
     (h @ [ArrayCell [], ArrayCell [], DictCell [], DictCell [], ArrayCell [], LogsCell [],
           StateCell \<lparr>ref_processes = length h, ref_resources = length h + 1,
                      ref_assignments = length h + 2, ref_waitingRequests = length h + 3,
                      ref_eventQueue = length h + 4, val_step = 0, ref_logs = length h + 5,
                      val_avoidance = False\<rparr>],
      length h + 6)"

fun findNamed :: "heap \<Rightarrow> string \<Rightarrow> addr list \<Rightarrow> addr option option" where
  "findNamed h name [] = Some None"
| "findNamed h name (a # as) = do {
     c \<leftarrow> getCell h a;
     case c of
       ProcessCell n s \<Rightarrow> if n = name then Some (Some a) else findNamed h name as
     | ResourceCell n t \<Rightarrow> if n = name then Some (Some a) else findNamed h name as
     | _ \<Rightarrow> None
   }"

definition getProcess_h :: "heap \<Rightarrow> addr \<Rightarrow> string \<Rightarrow> addr option option" where
  "getProcess_h h a name = do {
     c \<leftarrow> getCell h a;
     case c of
       StateCell refs \<Rightarrow> do {
         cp \<leftarrow> getCell h (ref_processes refs);
         case cp of ArrayCell ps \<Rightarrow> findNamed h name ps | _ \<Rightarrow> None
       }
     | _ \<Rightarrow> None
   }"

definition getResource_h :: "heap \<Rightarrow> addr \<Rightarrow> string \<Rightarrow> addr option option" where
  "getResource_h h a name = do {
     c \<leftarrow> getCell h a;
     case c of
       StateCell refs \<Rightarrow> do {
         cr \<leftarrow> getCell h (ref_resources refs);
         case cr of ArrayCell rs \<Rightarrow> findNamed h name rs | _ \<Rightarrow> None
       }
     | _ \<Rightarrow> None
   }"

definition availableOf_h :: "heap \<Rightarrow> addr \<Rightarrow> string \<Rightarrow> int option" where
  "availableOf_h h a resName = do {
     ex \<leftarrow> protoProps h;
     r \<leftarrow> getResource_h h a resName;
     case r of
       None \<Rightarrow> Some 0
     | Some ra \<Rightarrow> do {
         cr \<leftarrow> getCell h ra;
         c \<leftarrow> getCell h a;
         case (cr, c) of
           (ResourceCell n t, StateCell refs) \<Rightarrow> do {
             ca \<leftarrow> getCell h (ref_assignments refs);
             case ca of
               DictCell kvs \<Rightarrow>
                 (case slotOf ex kvs resName of
                    OwnSlot ma \<Rightarrow> do {
                      cm \<leftarrow> getCell h ma;
                      case cm of CountsCell m \<Rightarrow> Some (t - sum_list (map snd m)) | _ \<Rightarrow> None
                    }
                  | ThePrototype \<Rightarrow> Some (t - sum_list (map snd ex))
                  | _ \<Rightarrow> Some t)
             | _ \<Rightarrow> None
           }
         | _ \<Rightarrow> None
       }
   }"

definition pushLog_h :: "heap \<Rightarrow> addr \<Rightarrow> log_entry \<Rightarrow> heap option" where
  "pushLog_h h a l = do {
     c \<leftarrow> getCell h a;
     case c of
       StateCell refs \<Rightarrow> do {
         cl \<leftarrow> getCell h (ref_logs refs);
         case cl of LogsCell ls \<Rightarrow> Some (h[ref_logs refs := LogsCell (ls @ [l])]) | _ \<Rightarrow> None
       }
     | _ \<Rightarrow> None
   }"

definition addProcess_h :: "heap \<Rightarrow> addr \<Rightarrow> string \<Rightarrow> (heap \<times> bool) option" where
  "addProcess_h h a name = do {
     p \<leftarrow> getProcess_h h a name;
     if name = [] \<or> p \<noteq> None then Some (h, False)
     else do {
       c \<leftarrow> getCell h a;
       case c of
         StateCell refs \<Rightarrow> do {
           cp \<leftarrow> getCell h (ref_processes refs);
           case cp of
             ArrayCell ps \<Rightarrow>
               Some ((h @ [ProcessCell name ready])[ref_processes refs := ArrayCell (ps @ [length h])],
                     True)
           | _ \<Rightarrow> None
         }
       | _ \<Rightarrow> None
     }
   }"

definition addResource_h :: "heap \<Rightarrow> addr \<Rightarrow> string \<Rightarrow> int option \<Rightarrow> (heap \<times> bool) option" where
  "addResource_h h a name instances = do {
     r \<leftarrow> getResource_h h a name;
     if name = [] \<or> r \<noteq> None then Some (h, False)
     else do {
       c \<leftarrow> getCell h a;
       case c of
         StateCell refs \<Rightarrow> do {
           cr \<leftarrow> getCell h (ref_resources refs);
           case cr of
             ArrayCell rs \<Rightarrow> do {
               h1 \<leftarrow> ensureResourceMaps_h
                      ((h @ [ResourceCell name (r_total (newResource name instances))])
                         [ref_resources refs := ArrayCell (rs @ [length h])]) a name;
               Some (h1, True)
             }
           | _ \<Rightarrow> None
         }
       | _ \<Rightarrow> None
     }
   }"

definition commitGrant_h ::
  "heap \<Rightarrow> addr \<Rightarrow> string \<Rightarrow> string \<Rightarrow> int \<Rightarrow> (heap \<times> ReqResult attempt) option" where
  "commitGrant_h h a procName resName cnt = do {
     w \<leftarrow> addCount_h h a resName procName cnt;
     case w of
       TypeError \<Rightarrow> Some (h, TypeError)
     | Done h1 \<Rightarrow> do {
         avail \<leftarrow> availableOf_h h1 a resName;
         h2 \<leftarrow> pushLog_h h1 a (GrantedLog procName cnt resName avail);
         Some (h2, Done Granted)
       }
   }"

definition commitWait_h ::
  "heap \<Rightarrow> addr \<Rightarrow> string \<Rightarrow> string \<Rightarrow> int \<Rightarrow> (heap \<times> ReqResult attempt) option" where
  "commitWait_h h a procName resName cnt = do {
     w \<leftarrow> pushWait_h h a resName procName cnt;
     case w of
       TypeError \<Rightarrow> Some (h, TypeError)
     | Done h1 \<Rightarrow> do {
         h2 \<leftarrow> markBlocked_h h1 a procName;
         h3 \<leftarrow> pushLog_h h2 a (BlockedLog procName cnt resName);
         Some (h3, Done Queued)
       }
   }"

definition request_h ::
  "heap \<Rightarrow> addr \<Rightarrow> string \<Rightarrow> string \<Rightarrow> int option \<Rightarrow> bool
     \<Rightarrow> (heap \<times> ReqResult attempt) option" where
  "request_h h a procName resName cnt0 enqueueIfBlocked = do {
     p \<leftarrow> getProcess_h h a procName;
     r \<leftarrow> getResource_h h a resName;
     if p = None \<or> r = None then Some (h, Done InvalidRef)
     else do {
       h1 \<leftarrow> ensureResourceMaps_h h a resName;
       avail \<leftarrow> availableOf_h h1 a resName;
       c \<leftarrow> getCell h1 a;
       case c of
         StateCell refs \<Rightarrow>
           (let cnt = normCount cnt0 in
            if avail \<ge> cnt then
              (if val_avoidance refs then do {
                 (h2, verdict) \<leftarrow> grantWouldCreateDefiniteCycle_h h1 a procName resName (Some cnt);
                 case verdict of
                   Thrown \<Rightarrow> Some (h2, TypeError)
                 | NotFollowed \<Rightarrow> None
                 | Verdict info \<Rightarrow>
                     if dc_hasCycle info \<and> definite info then do {
                       h3 \<leftarrow> pushLog_h h2 a (AvoidedGrantLog cnt resName procName
                                                (cycles (deadInfo info)));
                       Some (h3, Done AvoidedCycle)
                     }
                     else if dc_hasCycle info \<and> \<not> definite info then do {
                       h3 \<leftarrow> pushLog_h h2 a (AllowedGrantLog cnt resName procName);
                       commitGrant_h h3 a procName resName cnt
                     }
                     else commitGrant_h h2 a procName resName cnt
               }
               else commitGrant_h h1 a procName resName cnt)
            else if enqueueIfBlocked then
              (if val_avoidance refs then do {
                 (h2, verdict) \<leftarrow> addWaitWouldCreateDefiniteCycle_h h1 a procName resName (Some cnt);
                 case verdict of
                   Thrown \<Rightarrow> Some (h2, TypeError)
                 | NotFollowed \<Rightarrow> None
                 | Verdict info \<Rightarrow>
                     if dc_hasCycle info \<and> definite info then do {
                       h3 \<leftarrow> pushLog_h h2 a (AvoidedWaitLog procName resName
                                                (cycles (deadInfo info)));
                       Some (h3, Done AvoidedWaitCycle)
                     }
                     else if dc_hasCycle info \<and> \<not> definite info then do {
                       h3 \<leftarrow> pushLog_h h2 a (AllowedWaitLog procName resName);
                       commitWait_h h3 a procName resName cnt
                     }
                     else commitWait_h h2 a procName resName cnt
               }
               else commitWait_h h1 a procName resName cnt)
            else Some (h1, Done InsufficientNotQueued))
       | _ \<Rightarrow> None
     }
   }"

text \<open>
  A fresh state at address 7 of a store that holds \<open>Object.prototype\<close> only, and the sequence
  \<open>addResource('__proto__', 1)\<close>, \<open>addProcess('P1')\<close>, \<open>addResource('R2', 1)\<close>,
  \<open>request('P1', '__proto__', 1)\<close>, \<open>request('P1', 'R2', 1)\<close> on it, with avoidance off.
  \<open>liveCells\<close> are the first eight cells of the store during the sequence, \<open>overGranted\<close> is
  the store at its end and \<open>overGrantedState\<close> the state read from it.
\<close>

definition overGrant :: "(heap \<times> ReqResult attempt) option" where
  "overGrant = do {
     (h1, added1) \<leftarrow> addResource_h (fst (newState_h [ProtoCell []])) 7 ''__proto__'' (Some 1);
     (h2, added2) \<leftarrow> addProcess_h h1 7 ''P1'';
     (h3, added3) \<leftarrow> addResource_h h2 7 ''R2'' (Some 1);
     (h4, res4) \<leftarrow> request_h h3 7 ''P1'' ''__proto__'' (Some 1) True;
     request_h h4 7 ''P1'' ''R2'' (Some 1) True
   }"

definition liveCells ::
  "(string \<times> int) list \<Rightarrow> addr list \<Rightarrow> addr list \<Rightarrow> (string \<times> addr) list
     \<Rightarrow> (string \<times> addr) list \<Rightarrow> log_entry list \<Rightarrow> cell list" where
  "liveCells ex ps rs asg wr lg =
     [ProtoCell ex, ArrayCell ps, ArrayCell rs, DictCell asg, DictCell wr, ArrayCell [],
      LogsCell lg,
      StateCell \<lparr>ref_processes = 1, ref_resources = 2, ref_assignments = 3,
                 ref_waitingRequests = 4, ref_eventQueue = 5, val_step = 0, ref_logs = 6,
                 val_avoidance = False\<rparr>]"

definition overGranted :: heap where
  "overGranted =
     liveCells [(''P1'', 1)] [9] [8, 10] [(''R2'', 11)] [(''R2'', 12)]
       [GrantedLog ''P1'' 1 ''__proto__'' 0, GrantedLog ''P1'' 1 ''R2'' (- 1)]
     @ [ResourceCell ''__proto__'' 1, ProcessCell ''P1'' ready, ResourceCell ''R2'' 1,
        CountsCell [(''P1'', 2)], ArrayCell []]"

definition overGrantedState :: RAGState where
  "overGrantedState =
     \<lparr>processes = [\<lparr>p_name = ''P1'', p_state = ready\<rparr>],
      resources = [\<lparr>r_name = ''__proto__'', r_total = 1\<rparr>, \<lparr>r_name = ''R2'', r_total = 1\<rparr>],
      assignments = [(''R2'', [(''P1'', 2)])], waitingRequests = [(''R2'', [])],
      eventQueue = [], step = 0,
      logs = [GrantedLog ''P1'' 1 ''__proto__'' 0, GrantedLog ''P1'' 1 ''R2'' (- 1)],
      avoidance = False\<rparr>"

text \<open>
  The addresses stored in a cell, and the property that no cell from address \<open>n\<close> on
  points below \<open>n\<close>. A \<open>flat\<close> copy stores no address; a \<open>cloner\<close> keeps the property and
  every cell below \<open>n\<close>, and returns an address from \<open>n\<close> on.
\<close>

fun cell_addrs :: "cell \<Rightarrow> addr list" where
  "cell_addrs (ArrayCell as) = as"
| "cell_addrs (DictCell kvs) = map snd kvs"
| "cell_addrs (StateCell refs) =
     [ref_processes refs, ref_resources refs, ref_assignments refs, ref_waitingRequests refs,
      ref_eventQueue refs, ref_logs refs]"
| "cell_addrs _ = []"

definition isolated :: "nat \<Rightarrow> heap \<Rightarrow> bool" where
  "isolated n h \<longleftrightarrow>
     n \<le> length h \<and> list_all (\<lambda>c. list_all (\<lambda>b. n \<le> b) (cell_addrs c)) (drop n h)"

definition flat :: "(cell \<Rightarrow> cell option) \<Rightarrow> bool" where
  "flat f \<longleftrightarrow> (\<forall>c c'. f c = Some c' \<longrightarrow> cell_addrs c' = [])"

definition cloner :: "(heap \<Rightarrow> addr \<Rightarrow> (heap \<times> addr) option) \<Rightarrow> bool" where
  "cloner g \<longleftrightarrow>
     (\<forall>n h a h' b. g h a = Some (h', b) \<longrightarrow> isolated n h \<longrightarrow>
        isolated n h' \<and> take n h' = take n h \<and> n \<le> b)"

text \<open>
  The shape of a store that holds a state. Every cell has a kind; a store holds a readable
  state at an address when every container reached from there holds addresses of cells of
  the kind it is meant for. \<open>apartRefs\<close> is what the writes of the tests rely on in addition:
  the two maps of the state are different objects, and no wait queue is the array of
  processes, of resources or of events. \<open>upd X h h'\<close> relates a store to a later one in
  which every cell outside \<open>X\<close> has kept its kind and every container outside \<open>X\<close> its
  content; the cells at \<open>X\<close> are containers. The last three properties describe functions
  that copy: a copy of a cell of a kind is a cell of that kind, a copy of a well-formed
  object is a well-formed object at a new address, and a well-formed object stays so when
  the store grows.
\<close>

datatype kind =
  ProcessK | ResourceK | WaitReqK | EventK | ArrayK | LogsK | CountsK | DictK | StateK | ProtoK

fun kindOf :: "cell \<Rightarrow> kind" where
  "kindOf (ProcessCell n s) = ProcessK"
| "kindOf (ResourceCell n t) = ResourceK"
| "kindOf (WaitReqCell p n) = WaitReqK"
| "kindOf (EventCell e) = EventK"
| "kindOf (ArrayCell as) = ArrayK"
| "kindOf (LogsCell ls) = LogsK"
| "kindOf (CountsCell m) = CountsK"
| "kindOf (DictCell kvs) = DictK"
| "kindOf (StateCell refs) = StateK"
| "kindOf (ProtoCell ex) = ProtoK"

definition is_flat :: "kind \<Rightarrow> bool" where
  "is_flat k \<longleftrightarrow> k \<noteq> ArrayK \<and> k \<noteq> DictK \<and> k \<noteq> StateK"

definition okCell :: "kind \<Rightarrow> heap \<Rightarrow> addr \<Rightarrow> bool" where
  "okCell k h x = (case getCell h x of Some c \<Rightarrow> kindOf c = k | None \<Rightarrow> False)"

definition okArray :: "kind \<Rightarrow> heap \<Rightarrow> addr \<Rightarrow> bool" where
  "okArray k h b = (case getCell h b of Some (ArrayCell as) \<Rightarrow> list_all (okCell k h) as | _ \<Rightarrow> False)"

definition okDict :: "(heap \<Rightarrow> addr \<Rightarrow> bool) \<Rightarrow> heap \<Rightarrow> addr \<Rightarrow> bool" where
  "okDict G h b =
     (case getCell h b of Some (DictCell kvs) \<Rightarrow> list_all (\<lambda>kv. G h (snd kv)) kvs | _ \<Rightarrow> False)"

definition okRefs :: "heap \<Rightarrow> StateRefs \<Rightarrow> bool" where
  "okRefs h refs \<longleftrightarrow>
     okArray ProcessK h (ref_processes refs) \<and> okArray ResourceK h (ref_resources refs)
     \<and> okDict (okCell CountsK) h (ref_assignments refs)
     \<and> okDict (okArray WaitReqK) h (ref_waitingRequests refs)
     \<and> okArray EventK h (ref_eventQueue refs) \<and> okCell LogsK h (ref_logs refs)"

definition apartRefs :: "heap \<Rightarrow> StateRefs \<Rightarrow> bool" where
  "apartRefs h refs \<longleftrightarrow>
     ref_assignments refs \<noteq> ref_waitingRequests refs
     \<and> (case getCell h (ref_waitingRequests refs) of
          Some (DictCell kvs) \<Rightarrow>
            list_all (\<lambda>kv. snd kv \<noteq> ref_processes refs \<and> snd kv \<noteq> ref_resources refs
                            \<and> snd kv \<noteq> ref_eventQueue refs) kvs
        | _ \<Rightarrow> False)"

definition readable :: "heap \<Rightarrow> addr \<Rightarrow> bool" where
  "readable h a = (case getCell h a of Some (StateCell refs) \<Rightarrow> okRefs h refs | _ \<Rightarrow> False)"

definition shapedAt :: "heap \<Rightarrow> addr \<Rightarrow> StateRefs \<Rightarrow> bool" where
  "shapedAt h a refs \<longleftrightarrow>
     getCell h a = Some (StateCell refs) \<and> okRefs h refs \<and> apartRefs h refs"

definition upd :: "addr set \<Rightarrow> heap \<Rightarrow> heap \<Rightarrow> bool" where
  "upd X h h' \<longleftrightarrow>
     (\<forall>x \<in> X. \<exists>c. getCell h x = Some c \<and> \<not> is_flat (kindOf c))
     \<and> (\<forall>y c. y \<notin> X \<longrightarrow> getCell h y = Some c \<longrightarrow>
           (\<exists>c'. getCell h' y = Some c' \<and> kindOf c' = kindOf c
                 \<and> (\<not> is_flat (kindOf c) \<longrightarrow> c' = c)))"

definition copier :: "kind \<Rightarrow> (cell \<Rightarrow> cell option) \<Rightarrow> bool" where
  "copier k cp \<longleftrightarrow> (\<forall>c. kindOf c = k \<longrightarrow> (\<exists>c'. cp c = Some c' \<and> kindOf c' = k))"

definition clones ::
  "(heap \<Rightarrow> addr \<Rightarrow> bool) \<Rightarrow> (heap \<Rightarrow> addr \<Rightarrow> (heap \<times> addr) option) \<Rightarrow> bool" where
  "clones G g \<longleftrightarrow>
     (\<forall>h y. G h y \<longrightarrow>
        (\<exists>h' y'. g h y = Some (h', y') \<and> prefix h h' \<and> G h' y' \<and> length h \<le> y'
                 \<and> y' < length h'))"

definition grows :: "(heap \<Rightarrow> addr \<Rightarrow> bool) \<Rightarrow> bool" where
  "grows G \<longleftrightarrow> (\<forall>h h' y. prefix h h' \<longrightarrow> G h y \<longrightarrow> G h' y)"

text \<open>
  A state with the process \<open>P1\<close> and the two resources \<open>__proto__\<close> and \<open>R2\<close>, one instance
  each, with avoidance on, as \<open>addResource\<close> and \<open>addProcess\<close> leave it in a store: for
  \<open>__proto__\<close> no container was created, because \<open>Object.prototype\<close> was found under that
  name. The state object is at address 12. \<open>protoCopies\<close> are the cells that \<open>serialize\<close> and
  \<open>RAGState.from\<close> append: the plain object at 24, the six containers of the constructor, and
  \<open>next\<close> at address 42. \<open>pollutedHeap\<close> is the store of the live state once
  \<open>Object.prototype\<close> has the property \<open>P1\<close>.
\<close>

definition protoState :: "addr \<Rightarrow> cell list" where
  "protoState b =
     [ProcessCell ''P1'' ready, ArrayCell [b],
      ResourceCell ''__proto__'' 1, ResourceCell ''R2'' 1, ArrayCell [b + 2, b + 3],
      CountsCell [], DictCell [(''R2'', b + 5)],
      ArrayCell [], DictCell [(''R2'', b + 7)],
      ArrayCell [], LogsCell [],
      StateCell \<lparr>ref_processes = b + 1, ref_resources = b + 4, ref_assignments = b + 6,
                 ref_waitingRequests = b + 8, ref_eventQueue = b + 9, val_step = 0,
                 ref_logs = b + 10, val_avoidance = True\<rparr>]"

definition emptyCells :: "cell list" where
  "emptyCells = [ArrayCell [], ArrayCell [], DictCell [], DictCell [], ArrayCell [], LogsCell []]"

definition protoCopies :: "cell list" where
  "protoCopies = protoState 13 @ emptyCells @ protoState 31"

definition protoHeap :: heap where
  "protoHeap = ProtoCell [] # protoState 1"

definition pollutedHeap :: heap where
  "pollutedHeap = ProtoCell [(''P1'', 1)] # protoState 1"

definition protoStateValue :: RAGState where
  "protoStateValue =
     \<lparr>processes = [\<lparr>p_name = ''P1'', p_state = ready\<rparr>],
      resources = [\<lparr>r_name = ''__proto__'', r_total = 1\<rparr>, \<lparr>r_name = ''R2'', r_total = 1\<rparr>],
      assignments = [(''R2'', [])], waitingRequests = [(''R2'', [])],
      eventQueue = [], step = 0, logs = [], avoidance = True\<rparr>"

section \<open>Basic facts\<close>

lemma normCount_ge1: "1 \<le> normCount c"
  by (simp add: normCount_def)

lemma normCount_not_le0 [simp]: "\<not> normCount c \<le> 0"
  using normCount_ge1[of c] by linarith

lemma normCount_Some_normCount [simp]: "normCount (Some (normCount c)) = normCount c"
  using normCount_ge1[of c] by (simp add: normCount_def numberOr1_def)

lemma keys_P1_P2: "object_keys [(''P1'', x), (''P2'', y)] = [''P1'', ''P2'']"
  by (simp add: object_keys_def is_array_index_def is_digit_def)

lemma keys_P1: "object_keys [(''P1'', x)] = [''P1'']"
  by (simp add: object_keys_def is_array_index_def is_digit_def)

lemma keys_P2: "object_keys [(''P2'', x)] = [''P2'']"
  by (simp add: object_keys_def is_array_index_def is_digit_def)


lemma map_of_append_new: "map_of (al @ [(k, v)]) k' = (if map_of al k' = None \<and> k' = k then Some v else map_of al k')"
  by (induction al) auto

lemma assignedOf_ensure [simp]: "assignedOf (ensureResourceMaps st r) r' = assignedOf st r'"
  by (auto simp: assignedOf_def ensureResourceMaps_def Let_def map_of_append_new
      split: option.splits if_splits)

lemma queueOf_ensure [simp]: "queueOf (ensureResourceMaps st r) r' = queueOf st r'"
  by (auto simp: queueOf_def ensureResourceMaps_def Let_def map_of_append_new
      split: option.splits if_splits)

lemma ensure_fields [simp]:
  "processes (ensureResourceMaps st r) = processes st"
  "resources (ensureResourceMaps st r) = resources st"
  "eventQueue (ensureResourceMaps st r) = eventQueue st"
  "step (ensureResourceMaps st r) = step st"
  "logs (ensureResourceMaps st r) = logs st"
  "avoidance (ensureResourceMaps st r) = avoidance st"
  by (simp_all add: ensureResourceMaps_def Let_def)


lemma getProcess_ensure [simp]: "getProcess (ensureResourceMaps st r) p = getProcess st p"
  by (simp add: getProcess_def)

lemma getResource_ensure [simp]: "getResource (ensureResourceMaps st r) r' = getResource st r'"
  by (simp add: getResource_def)

lemma heldOf_ensure [simp]: "heldOf (ensureResourceMaps st r) r' p = heldOf st r' p"
  by (simp add: heldOf_def)

lemma availableOf_ensure [simp]: "availableOf (ensureResourceMaps st r) r' = availableOf st r'"
  by (simp add: availableOf_def split: option.splits)

lemma pushLog_fields [simp]:
  "processes (pushLog st l) = processes st"
  "resources (pushLog st l) = resources st"
  "assignments (pushLog st l) = assignments st"
  "waitingRequests (pushLog st l) = waitingRequests st"
  "eventQueue (pushLog st l) = eventQueue st"
  "step (pushLog st l) = step st"
  "logs (pushLog st l) = logs st @ [l]"
  "avoidance (pushLog st l) = avoidance st"
  by (simp_all add: pushLog_def)

lemma pushLog_assignedOf [simp]: "assignedOf (pushLog st l) r = assignedOf st r"
  by (simp add: assignedOf_def)

lemma pushLog_reads [simp]:
  "heldOf (pushLog st l) r p = heldOf st r p"
  "availableOf (pushLog st l) r = availableOf st r"
  "getProcess (pushLog st l) p = getProcess st p"
  "getResource (pushLog st l) r = getResource st r"
  by (simp_all add: heldOf_def availableOf_def getProcess_def getResource_def
      split: option.splits)

section \<open>Avoidance in the two-process scenario\<close>

lemma next1: "nextAfterWait (cycleSetup evq n lg) ''P2'' ''R1'' c = cycleNext evq n lg (normCount c)"
  unfolding nextAfterWait_def Let_def
  by (simp add: cycleSetup_def cycleNext_def ensureResourceMaps_def RAGState_from_def serialize_def
    newProcess_def newResource_def numberOr1_def setQueue_def queueOf_def getProcess_def
    setProcessState_def)

lemma wfg1: "1 \<le> c \<Longrightarrow> buildWFG (cycleNext evq n lg c) = Some [(''P1'', [''P2'']), (''P2'', [''P1''])]"
  unfolding buildWFG_def Let_def
  by (simp add: cycleNext_def ensureResourceMaps_def queueOf_def assignedOf_def availableOf_def
    getResource_def set_add_def keys_P1_P2 keys_P1 keys_P2 Let_def)

lemma dfs1: "dfs_roots [(''P1'', [''P2'']), (''P2'', [''P1''])] [''P1'', ''P2''] \<lparr>d_color = [(''P1'', WHITE), (''P2'', WHITE)], d_stack = [], d_cycles = []\<rparr> = 
   \<lparr>d_color = [(''P1'', BLACK), (''P2'', BLACK)], d_stack = [], d_cycles = [[''P1'', ''P2'']]\<rparr>"
  by (simp add: dfs.simps adjAt_def Let_def lastIndexOf_def)

lemma cyc1: "detectCyclesInAdj [(''P1'', [''P2'']), (''P2'', [''P1''])] =
   \<lparr>c_hasCycle = True, c_cycles = [[''P1'', ''P2'']], c_involved = [''P1'', ''P2'']\<rparr>"
  unfolding detectCyclesInAdj_def Let_def keys_P1_P2 list.map dfs1
  by (simp add: set_add_def)

lemma def1: "1 \<le> c \<Longrightarrow> cycleUsesOnlySingleInstanceResources [''P1'', ''P2''] (cycleNext evq n lg c)"
  unfolding cycleUsesOnlySingleInstanceResources_def
  by (simp add: cycleNext_def queueOf_def assignedOf_def keys_P1 keys_P2 upt_rec)

lemma shdc1: "1 \<le> c \<Longrightarrow> stateHasDefiniteCycle (cycleNext evq n lg c) =
   Some \<lparr>dc_hasCycle = True, definite = True,
         deadInfo = \<lparr>hasCycle = True, cycles = [[''P1'', ''P2'']], involved = [''P1'', ''P2''],
                     wfg = [(''P1'', [''P2'']), (''P2'', [''P1''])]\<rparr>\<rparr>"
  unfolding stateHasDefiniteCycle_def detectDeadlock_def Let_def
  by (simp add: wfg1 cyc1 def1)

text \<open>
  C2. In the two-process scenario with avoidance on, the request of \<open>P2\<close> for \<open>R1\<close> with
  \<open>enqueueIfBlocked\<close> is denied with the reason 'Avoided waiting cycle (definite)'. The state
  after the call is the state before it with one more log line, which names the cycle:
  no entry of \<open>P2\<close> enters the queue of \<open>R1\<close>, and wait queues and assignments are
  unchanged.
\<close>

theorem avoided_wait_cycle:
  "request (cycleSetup evq n lg) ''P2'' ''R1'' c True =
     Some (pushLog (cycleSetup evq n lg) (AvoidedWaitLog ''P2'' ''R1'' [[''P1'', ''P2'']]),
           AvoidedWaitCycle)"
proof -
  have a: "ensureResourceMaps (cycleSetup evq n lg) ''R1'' = cycleSetup evq n lg"
    by (simp add: ensureResourceMaps_def cycleSetup_def)
  have b: "availableOf (cycleSetup evq n lg) ''R1'' = 0"
    by (simp add: availableOf_def getResource_def assignedOf_def cycleSetup_def)
  have c: "avoidance (cycleSetup evq n lg)" by (simp add: cycleSetup_def)
  have d: "getProcess (cycleSetup evq n lg) ''P2'' \<noteq> None" "getResource (cycleSetup evq n lg) ''R1'' \<noteq> None"
    by (simp_all add: getProcess_def getResource_def cycleSetup_def)
  show ?thesis
    unfolding request_def Let_def a b
    using c d by (simp add: addWaitWouldCreateDefiniteCycle_def next1 shdc1 normCount_ge1)
qed

section \<open>Release when nothing is held\<close>


section \<open>Normalisation of counts\<close>




section \<open>Step forward, step backward\<close>

lemma Process_rebuild [simp]: "\<lparr>p_name = p_name x, p_state = p_state x\<rparr> = (x::Process)"
  by (cases x) simp

lemma from_serialize_fields:
  "processes (RAGState_from (serialize st)) = processes st"
  "assignments (RAGState_from (serialize st)) = assignments st"
  "waitingRequests (RAGState_from (serialize st)) = waitingRequests st"
  "eventQueue (RAGState_from (serialize st)) = eventQueue st"
  "step (RAGState_from (serialize st)) = step st"
  "logs (RAGState_from (serialize st)) = logs st"
  "avoidance (RAGState_from (serialize st)) = avoidance st"
  by (simp_all add: RAGState_from_def serialize_def newProcess_def o_def)

lemma from_serialize_resources:
  "resources (RAGState_from (serialize st))
     = map (\<lambda>r. \<lparr>r_name = r_name r, r_total = max 1 (if r_total r = 0 then 1 else r_total r)\<rparr>)
         (resources st)"
  by (simp add: RAGState_from_def serialize_def newResource_def numberOr1_def o_def)

lemma tryGrantLoop_end:
  "length (queueOf st r) \<le> i \<Longrightarrow> tryGrantLoop st r i ch = Some (st, ch)"
  by (subst tryGrantLoop.simps) simp

lemma stepForward_new:
  "stepForward newRAGState True = Some (newRAGState\<lparr>step := 1, logs := [NoOpStepLog]\<rparr>)"
  by (simp add: stepForward_def newRAGState_def Let_def pushLog_def recomputeStates_def)

lemma stepForward_P1:
  "stepForward (fst (addProcess newRAGState ''P1'')) True
     = Some (newRAGState\<lparr>processes := [\<lparr>p_name = ''P1'', p_state = ready\<rparr>], step := 1,
                          logs := [NoOpStepLog]\<rparr>)"
  by (simp add: stepForward_def newRAGState_def Let_def pushLog_def recomputeStates_def
      addProcess_def getProcess_def newProcess_def hasWaitEntry_def)

text \<open>
  C4 as stated fails: \<open>stepBackward\<close> reinstates the last snapshot, not the state before
  the step. After \<open>sim.state.addProcess('P1')\<close> on a new simulator (no snapshot taken), a
  step forward and a step backward leave a state without \<open>P1\<close>.
\<close>

theorem step_back_loses_unsaved:
  "history unsavedSim \<noteq> [] \<and> length (history unsavedSim) < 1000
   \<and> map_option (\<lambda>s. processes (state (stepBackward s))) (Simulator_stepForward unsavedSim True)
       = Some []
   \<and> processes (state unsavedSim) = [\<lparr>p_name = ''P1'', p_state = ready\<rparr>]"
  unfolding Simulator_stepForward_def unsavedSim_def
  by (simp add: stepForward_P1 newSimulator_def snapshot_def stepBackward_def Let_def
      from_serialize_fields)
     (simp add: newRAGState_def addProcess_def getProcess_def newProcess_def serialize_def)

section \<open>Trace export\<close>

text \<open>The earlier version builds the documented record for every snapshot.\<close>

lemma exportTrace_v0_layout:
  "map fieldNames (exportTrace_v0 sim)
     = replicate (length (history sim))
         [''step'', ''processes'', ''resources'', ''available'', ''assigned'', ''queues'', ''logs'']"
  by (simp add: exportTrace_v0_def traceRecord_v0_def fieldNames_def o_def map_replicate_const)

text \<open>
  C9. \<open>Simulator.exportTrace\<close> returns one record per history entry, in order, but each
  record is the serialized snapshot: its fields are \<open>processes\<close>, \<open>resources\<close>,
  \<open>assignments\<close>, \<open>waitingRequests\<close>, \<open>eventQueue\<close>, \<open>step\<close>, \<open>logs\<close> and \<open>avoidance\<close>. There
  is no \<open>available\<close> field, the ledger and the queues are not named \<open>assigned\<close> and
  \<open>queues\<close>, and the event queue and the avoidance flag are exported too.
\<close>

theorem exportTrace_raw_snapshots:
  "map fieldNames (exportTrace sim)
     = replicate (length (history sim))
         [''processes'', ''resources'', ''assignments'', ''waitingRequests'', ''eventQueue'',
          ''step'', ''logs'', ''avoidance'']
   \<and> exportTrace newSimulator
     = [JObj [(''processes'', JArr []), (''resources'', JArr []), (''assignments'', JObj []),
              (''waitingRequests'', JObj []), (''eventQueue'', JArr []), (''step'', JNum 0),
              (''logs'', JArr []), (''avoidance'', JBool False)]]"
  by (simp add: exportTrace_def jsonSnapshot_def fieldNames_def o_def map_replicate_const
      newSimulator_def newRAGState_def serialize_def jsonAssignments_def jsonQueues_def
      keyOrder_def)


section \<open>The scan of the wait queue\<close>

lemma grantFromQueue_grantEntry:
  "grantFromQueue st r i req
     = grantEntry st r (take i (queueOf st r)) req (drop (Suc i) (queueOf st r))"
  by (simp add: grantFromQueue_def grantEntry_def Let_def)

lemma queueOf_grantEntry [simp]: "queueOf (grantEntry st r kept req rest) r = kept @ rest"
  by (simp add: grantEntry_def Let_def)

lemma tryGrantLoop_scanQueue:
  "i \<le> length (queueOf st r) \<Longrightarrow>
   tryGrantLoop st r i ch = scanQueue st r (take i (queueOf st r)) (drop i (queueOf st r)) ch"
proof (induction st r i ch rule: tryGrantLoop.induct)
  case (1 st resName i changed)
  let ?q = "queueOf st resName"
  show ?case
  proof (cases "i < length ?q")
    case False
    with 1 show ?thesis by (subst tryGrantLoop.simps) simp
  next
    case True
    then have d: "drop i ?q = (?q ! i) # drop (Suc i) ?q"
      by (simp add: Cons_nth_drop_Suc)
    have t: "take (Suc i) ?q = take i ?q @ [?q ! i]"
      using True by (simp add: take_Suc_conv_app_nth)
    have qg: "\<And>s. queueOf s resName = ?q \<Longrightarrow>
        queueOf (grantFromQueue s resName i (?q ! i)) resName = take i ?q @ drop (Suc i) ?q"
      by (simp add: queueOf_grantFromQueue)
    have tk: "take i (take i ?q @ drop (Suc i) ?q) = take i ?q"
      using True by simp
    have dr: "drop i (take i ?q @ drop (Suc i) ?q) = drop (Suc i) ?q"
      using True by simp
    have le: "i \<le> length (take i ?q @ drop (Suc i) ?q)"
      using True by simp
    show ?thesis
      apply (subst tryGrantLoop.simps)
      apply (simp only: True if_True d scanQueue.simps Let_def)
      using True 1 
      apply (auto simp: t qg tk dr le grantFromQueue_grantEntry queueOf_grantFromQueue
                  split: option.splits)
      done
  qed
qed

lemma queueOf_pushLog [simp]: "queueOf (pushLog st l) r = queueOf st r"
  by (simp add: queueOf_def)




section \<open>A definite cycle next to a potential one\<close>

lemma object_keys_plain:
  "list_all (\<lambda>k. \<not> is_array_index k) (map fst m) \<Longrightarrow> object_keys m = map fst m"
proof -
  assume a: "list_all (\<lambda>k. \<not> is_array_index k) (map fst m)"
  then have "filter is_array_index (map fst m) = []"
    by (induction m) auto
  moreover from a have "filter (\<lambda>k. \<not> is_array_index k) (map fst m) = map fst m"
    by (induction m) auto
  ultimately show ?thesis by (simp add: object_keys_def Let_def)
qed

lemma plain_names [simp]:
  "\<not> is_array_index ''P1''" "\<not> is_array_index ''P2''"
  "\<not> is_array_index ''P3''" "\<not> is_array_index ''P4''"
  by (simp_all add: is_array_index_def is_digit_def)

lemma mixed_reached: "run mixedOps newRAGState = Some (mixedState mixedLogs)"
  unfolding mixedOps_def
  by (simp add: newRAGState_def addProcess_def addResource_def getProcess_def getResource_def
      newProcess_def newResource_def numberOr1_def normCount_def ensureResourceMaps_def
      request_def availableOf_def assignedOf_def queueOf_def commitGrant_def commitWait_def
      addAssigned_def setAssigned_def heldOf_def setQueue_def setProcessState_def pushLog_def
      mixedState_def mixedLogs_def Let_def)

lemma mixed_next: "nextAfterWait (mixedState lg) ''P2'' ''R1'' (Some 1) = mixedNext lg"
  unfolding nextAfterWait_def Let_def
  by (simp add: mixedState_def mixedNext_def ensureResourceMaps_def RAGState_from_def
      serialize_def newProcess_def newResource_def numberOr1_def normCount_def setQueue_def
      queueOf_def getProcess_def setProcessState_def)

lemma mixed_wfg:
  "buildWFG (mixedNext lg)
     = Some [(''P1'', [''P2'']), (''P2'', [''P1'']), (''P3'', [''P4'']), (''P4'', [''P3''])]"
  unfolding buildWFG_def Let_def
  by (simp add: mixedNext_def mixedState_def ensureResourceMaps_def queueOf_def assignedOf_def
      availableOf_def getResource_def set_add_def object_keys_plain Let_def)

lemma mixed_dfs:
  "dfs_roots [(''P1'', [''P2'']), (''P2'', [''P1'']), (''P3'', [''P4'']), (''P4'', [''P3''])]
     [''P1'', ''P2'', ''P3'', ''P4'']
     \<lparr>d_color = [(''P1'', WHITE), (''P2'', WHITE), (''P3'', WHITE), (''P4'', WHITE)],
      d_stack = [], d_cycles = []\<rparr>
   = \<lparr>d_color = [(''P1'', BLACK), (''P2'', BLACK), (''P3'', BLACK), (''P4'', BLACK)],
      d_stack = [], d_cycles = [[''P1'', ''P2''], [''P3'', ''P4'']]\<rparr>"
  by (simp add: dfs.simps adjAt_def Let_def lastIndexOf_def)

lemma mixed_cycles:
  "detectCyclesInAdj [(''P1'', [''P2'']), (''P2'', [''P1'']), (''P3'', [''P4'']), (''P4'', [''P3''])]
     = \<lparr>c_hasCycle = True, c_cycles = [[''P1'', ''P2''], [''P3'', ''P4'']],
        c_involved = [''P1'', ''P2'', ''P3'', ''P4'']\<rparr>"
proof -
  have k: "object_keys [(''P1'', [''P2'']), (''P2'', [''P1'']), (''P3'', [''P4'']), (''P4'', [''P3''])]
      = [''P1'', ''P2'', ''P3'', ''P4'']"
    by (simp add: object_keys_plain)
  show ?thesis
    unfolding detectCyclesInAdj_def Let_def k list.map mixed_dfs
    by (simp add: set_add_def)
qed

lemma mixed_definite: "cycleUsesOnlySingleInstanceResources [''P1'', ''P2''] (mixedNext lg)"
  unfolding cycleUsesOnlySingleInstanceResources_def
  by (simp add: mixedNext_def mixedState_def queueOf_def assignedOf_def object_keys_plain upt_rec)

lemma mixed_potential: "\<not> cycleUsesOnlySingleInstanceResources [''P3'', ''P4''] (mixedNext lg)"
  unfolding cycleUsesOnlySingleInstanceResources_def
  by (simp add: mixedNext_def mixedState_def queueOf_def assignedOf_def object_keys_plain upt_rec)

lemma mixed_info:
  "stateHasDefiniteCycle (mixedNext lg)
     = Some \<lparr>dc_hasCycle = True, definite = False,
             deadInfo = \<lparr>hasCycle = True, cycles = [[''P1'', ''P2''], [''P3'', ''P4'']],
                         involved = [''P1'', ''P2'', ''P3'', ''P4''],
                         wfg = [(''P1'', [''P2'']), (''P2'', [''P1'']), (''P3'', [''P4'']),
                                (''P4'', [''P3''])]\<rparr>\<rparr>"
  unfolding stateHasDefiniteCycle_def detectDeadlock_def Let_def
  by (simp add: mixed_wfg mixed_cycles mixed_definite mixed_potential)

text \<open>
  C1. With avoidance on, \<open>request\<close> denies an action only when every detected cycle is
  definite: \<open>stateHasDefiniteCycle\<close> reports \<open>definite\<close> as the conjunction over all detected
  cycles. In the state \<open>mixedState\<close> the wait of \<open>P2\<close> for \<open>R1\<close> closes the cycle
  \<open>P1 -> P2\<close>, every edge of which crosses a single-instance resource, while the detection
  also reports the potential cycle \<open>P3 -> P4\<close>: the request is queued, with the line
  'Allowed (potential cycle)', and not denied.
\<close>

theorem definite_cycle_allowed:
  "run mixedOps newRAGState = Some (mixedState mixedLogs)
   \<and> map_option cycles (detectDeadlock (nextAfterWait (mixedState lg) ''P2'' ''R1'' (Some 1)))
       = Some [[''P1'', ''P2''], [''P3'', ''P4'']]
   \<and> cycleUsesOnlySingleInstanceResources [''P1'', ''P2'']
        (nextAfterWait (mixedState lg) ''P2'' ''R1'' (Some 1))
   \<and> request (mixedState lg) ''P2'' ''R1'' (Some 1) True
       = Some ((mixedNext lg)\<lparr>logs := lg @ [AllowedWaitLog ''P2'' ''R1'', BlockedLog ''P2'' 1 ''R1'']\<rparr>, Queued)"
proof -
  have a: "ensureResourceMaps (mixedState lg) ''R1'' = mixedState lg"
    by (simp add: ensureResourceMaps_def mixedState_def)
  have b: "availableOf (mixedState lg) ''R1'' = 0"
    by (simp add: availableOf_def getResource_def assignedOf_def mixedState_def)
  have c: "avoidance (mixedState lg)" by (simp add: mixedState_def)
  have d: "getProcess (mixedState lg) ''P2'' \<noteq> None" "getResource (mixedState lg) ''R1'' \<noteq> None"
    by (simp_all add: getProcess_def getResource_def mixedState_def)
  have n: "normCount (Some 1) = 1" by (simp add: normCount_def numberOr1_def)
  have w: "commitWait (pushLog (mixedState lg) (AllowedWaitLog ''P2'' ''R1'')) ''P2'' ''R1'' 1
      = (mixedNext lg)\<lparr>logs := lg @ [AllowedWaitLog ''P2'' ''R1'', BlockedLog ''P2'' 1 ''R1'']\<rparr>"
    unfolding commitWait_def Let_def
    by (simp add: pushLog_def setQueue_def queueOf_def setProcessState_def mixedState_def
        mixedNext_def)
  have r: "request (mixedState lg) ''P2'' ''R1'' (Some 1) True
       = Some ((mixedNext lg)\<lparr>logs := lg @ [AllowedWaitLog ''P2'' ''R1'', BlockedLog ''P2'' 1 ''R1'']\<rparr>, Queued)"
    unfolding request_def Let_def a b n
    using c d by (simp add: addWaitWouldCreateDefiniteCycle_def mixed_next mixed_info w)
  have dd: "map_option cycles (detectDeadlock (mixedNext lg))
       = Some [[''P1'', ''P2''], [''P3'', ''P4'']]"
    unfolding detectDeadlock_def Let_def by (simp add: mixed_wfg mixed_cycles)
  show ?thesis
    using mixed_reached r dd mixed_definite[of lg] by (simp add: mixed_next)
qed

section \<open>Invariants of the reachable states\<close>

subsection \<open>Association lists\<close>

lemma set_update_subset: "set (AList.update k v al) \<subseteq> insert (k, v) (set al)"
  by (induction al) auto

lemma sum_snd_update:
  "sum_list (map snd (AList.update k v m))
     = sum_list (map snd m) - (case map_of m k of None \<Rightarrow> 0 | Some x \<Rightarrow> x) + (v::int)"
  by (induction m) auto

lemma set_delete_subset: "set (AList.delete k al) \<subseteq> set al"
  by (induction al) auto

lemma delete_no_key: "(k, v) \<notin> set (AList.delete k al)"
  by (induction al) auto

lemma sum_snd_delete_le:
  "\<forall>(p, n) \<in> set m. 0 \<le> (n::int) \<Longrightarrow> sum_list (map snd (AList.delete k m)) \<le> sum_list (map snd m)"
  by (induction m) auto

lemma find_name_iff: "(find (\<lambda>x. f x = n) xs = None) \<longleftrightarrow> n \<notin> f ` set xs"
  by (auto simp: find_None_iff)

lemma find_name_ex: "(\<exists>y. find (\<lambda>x. f x = n) xs = Some y) \<longleftrightarrow> n \<in> f ` set xs"
  using find_name_iff[of f n xs] by auto

lemma find_distinct:
  "distinct (map f xs) \<Longrightarrow> x \<in> set xs \<Longrightarrow> find (\<lambda>y. f y = f x) xs = Some x"
  by (induction xs) (auto simp: image_iff)

lemma find_Some_mem: "find P xs = Some x \<Longrightarrow> x \<in> set xs \<and> P x"
  by (induction xs) (auto split: if_splits)

lemma getProcess_iff:
  "getProcess st n = None \<longleftrightarrow> n \<notin> pnames st"
  "(\<exists>y. getProcess st n = Some y) \<longleftrightarrow> n \<in> pnames st"
  by (simp_all add: getProcess_def pnames_def find_name_iff find_name_ex)

lemma getResource_iff:
  "getResource st n = None \<longleftrightarrow> n \<notin> rnames st"
  "(\<exists>y. getResource st n = Some y) \<longleftrightarrow> n \<in> rnames st"
  by (simp_all add: getResource_def rnames_def find_name_iff find_name_ex)

lemma names_setFirstState [simp]: "map p_name (setFirstState n s ps) = map p_name ps"
  by (induction ps) auto

subsection \<open>Frames of the primitive updates\<close>

lemma setProcessState_fields [simp]:
  "resources (setProcessState st n s) = resources st"
  "assignments (setProcessState st n s) = assignments st"
  "waitingRequests (setProcessState st n s) = waitingRequests st"
  "eventQueue (setProcessState st n s) = eventQueue st"
  "step (setProcessState st n s) = step st"
  "logs (setProcessState st n s) = logs st"
  "avoidance (setProcessState st n s) = avoidance st"
  "map p_name (processes (setProcessState st n s)) = map p_name (processes st)"
  by (simp_all add: setProcessState_def)

lemma setAssigned_fields [simp]:
  "processes (setAssigned st r p v) = processes st"
  "resources (setAssigned st r p v) = resources st"
  "waitingRequests (setAssigned st r p v) = waitingRequests st"
  "eventQueue (setAssigned st r p v) = eventQueue st"
  "step (setAssigned st r p v) = step st"
  "logs (setAssigned st r p v) = logs st"
  "avoidance (setAssigned st r p v) = avoidance st"
  by (simp_all add: setAssigned_def)

lemma deleteAssigned_fields [simp]:
  "processes (deleteAssigned st r p) = processes st"
  "resources (deleteAssigned st r p) = resources st"
  "waitingRequests (deleteAssigned st r p) = waitingRequests st"
  "eventQueue (deleteAssigned st r p) = eventQueue st"
  "step (deleteAssigned st r p) = step st"
  "logs (deleteAssigned st r p) = logs st"
  "avoidance (deleteAssigned st r p) = avoidance st"
  by (simp_all add: deleteAssigned_def)

lemma addAssigned_fields [simp]:
  "processes (addAssigned st r p v) = processes st"
  "resources (addAssigned st r p v) = resources st"
  "waitingRequests (addAssigned st r p v) = waitingRequests st"
  "eventQueue (addAssigned st r p v) = eventQueue st"
  "step (addAssigned st r p v) = step st"
  "logs (addAssigned st r p v) = logs st"
  "avoidance (addAssigned st r p v) = avoidance st"
  by (simp_all add: addAssigned_def)

lemma setQueue_fields [simp]:
  "processes (setQueue st r q) = processes st"
  "resources (setQueue st r q) = resources st"
  "assignments (setQueue st r q) = assignments st"
  "eventQueue (setQueue st r q) = eventQueue st"
  "step (setQueue st r q) = step st"
  "logs (setQueue st r q) = logs st"
  "avoidance (setQueue st r q) = avoidance st"
  by (simp_all add: setQueue_def)

lemma assignedOf_setAssigned:
  "assignedOf (setAssigned st r p v) r'
     = (if r' = r then AList.update p v (assignedOf st r) else assignedOf st r')"
  by (simp add: assignedOf_def setAssigned_def update_conv')

lemma assignedOf_deleteAssigned:
  "assignedOf (deleteAssigned st r p) r'
     = (if r' = r then AList.delete p (assignedOf st r) else assignedOf st r')"
  by (simp add: assignedOf_def deleteAssigned_def update_conv')

lemma queueOf_setQueue_other: "queueOf (setQueue st r q) r' = (if r' = r then q else queueOf st r')"
  by (simp add: queueOf_def setQueue_def update_conv')

lemma assignedOf_frames [simp]:
  "assignedOf (setQueue st r q) r' = assignedOf st r'"
  "assignedOf (setProcessState st n s) r' = assignedOf st r'"
  by (simp_all add: assignedOf_def)

lemma pnames_frames [simp]:
  "pnames (setProcessState st n s) = pnames st"
  "pnames (setAssigned st r p v) = pnames st"
  "pnames (deleteAssigned st r p) = pnames st"
  "pnames (addAssigned st r p v) = pnames st"
  "pnames (setQueue st r q) = pnames st"
  "pnames (pushLog st l) = pnames st"
  "pnames (ensureResourceMaps st r) = pnames st"
proof -
  have "set (map p_name (processes (setProcessState st n s))) = set (map p_name (processes st))"
    by simp
  then show "pnames (setProcessState st n s) = pnames st"
    unfolding pnames_def by (simp only: set_map)
qed (simp_all add: pnames_def)

lemma rnames_frames [simp]:
  "rnames (setProcessState st n s) = rnames st"
  "rnames (setAssigned st r p v) = rnames st"
  "rnames (deleteAssigned st r p) = rnames st"
  "rnames (addAssigned st r p v) = rnames st"
  "rnames (setQueue st r q) = rnames st"
  "rnames (pushLog st l) = rnames st"
  "rnames (ensureResourceMaps st r) = rnames st"
  by (simp_all add: rnames_def)

lemma getters_frames [simp]:
  "getProcess (setAssigned st r p v) n = getProcess st n"
  "getProcess (deleteAssigned st r p) n = getProcess st n"
  "getProcess (addAssigned st r p v) n = getProcess st n"
  "getProcess (setQueue st r q) n = getProcess st n"
  "getResource (setAssigned st r p v) n = getResource st n"
  "getResource (deleteAssigned st r p) n = getResource st n"
  "getResource (addAssigned st r p v) n = getResource st n"
  "getResource (setQueue st r q) n = getResource st n"
  "getResource (setProcessState st p s) n = getResource st n"
  by (simp_all add: getProcess_def getResource_def)

lemma getProcess_setProcessState [simp]:
  "(getProcess (setProcessState st p s) n = None) = (getProcess st n = None)"
  by (simp add: getProcess_iff)

lemma availableOf_frames [simp]:
  "availableOf (setQueue st r q) r' = availableOf st r'"
  "availableOf (setProcessState st n s) r' = availableOf st r'"
  by (simp_all add: availableOf_def split: option.splits)

subsection \<open>Reading a well-formed state\<close>

lemma assignedOf_mem:
  "assignedOf st r \<noteq> [] \<Longrightarrow> (r, assignedOf st r) \<in> set (assignments st)"
  by (auto simp: assignedOf_def split: option.splits dest: map_of_SomeD)

lemma queueOf_mem:
  "queueOf st r \<noteq> [] \<Longrightarrow> (r, queueOf st r) \<in> set (waitingRequests st)"
  by (auto simp: queueOf_def split: option.splits dest: map_of_SomeD)

lemma ledger_ok_entry:
  "ledger_ok st \<Longrightarrow> (p, n) \<in> set (assignedOf st r) \<Longrightarrow> 0 < n"
  using assignedOf_mem[of st r] by (fastforce simp: ledger_ok_def)

lemma ledger_ok_resource:
  "ledger_ok st \<Longrightarrow> assignedOf st r \<noteq> [] \<Longrightarrow> r \<in> rnames st"
  using assignedOf_mem[of st r] by (fastforce simp: ledger_ok_def)

lemma queues_ok_entry:
  "queues_ok st \<Longrightarrow> e \<in> set (queueOf st r) \<Longrightarrow> 1 \<le> count e \<and> process e \<in> pnames st"
  using queueOf_mem[of st r] by (fastforce simp: queues_ok_def)

lemma queues_ok_resource:
  "queues_ok st \<Longrightarrow> queueOf st r \<noteq> [] \<Longrightarrow> r \<in> rnames st"
  using queueOf_mem[of st r] by (fastforce simp: queues_ok_def)

lemma heldOf_nonneg: "ledger_ok st \<Longrightarrow> 0 \<le> heldOf st r p"
  by (auto simp: heldOf_def split: option.splits dest!: map_of_SomeD ledger_ok_entry)

lemma heldOf_pos_resource:
  "ledger_ok st \<Longrightarrow> 0 < heldOf st r p \<Longrightarrow> r \<in> rnames st"
  by (rule ledger_ok_resource) (auto simp: heldOf_def split: option.splits)

subsection \<open>The ledger\<close>

lemma ledger_okI:
  "(\<And>r m. (r, m) \<in> set (assignments st) \<Longrightarrow>
       (\<forall>p n. (p, n) \<in> set m \<longrightarrow> 0 < n) \<and> (m \<noteq> [] \<longrightarrow> r \<in> rnames st)) \<Longrightarrow> ledger_ok st"
  unfolding ledger_ok_def by blast

lemma ledger_okD:
  "ledger_ok st \<Longrightarrow> (r, m) \<in> set (assignments st) \<Longrightarrow>
     (\<forall>p n. (p, n) \<in> set m \<longrightarrow> 0 < n) \<and> (m \<noteq> [] \<longrightarrow> r \<in> rnames st)"
  unfolding ledger_ok_def by blast

lemma ledger_ok_replace:
  assumes ok: "ledger_ok st"
    and sub: "set (assignments st') \<subseteq> insert (r, m') (set (assignments st))"
    and m': "\<forall>p n. (p, n) \<in> set m' \<longrightarrow> 0 < n"
    and r: "m' \<noteq> [] \<longrightarrow> r \<in> rnames st"
    and rn: "rnames st' = rnames st"
  shows "ledger_ok st'"
proof (rule ledger_okI)
  fix x m assume "(x, m) \<in> set (assignments st')"
  then have "(x, m) = (r, m') \<or> (x, m) \<in> set (assignments st)" using sub by blast
  then show "(\<forall>p n. (p, n) \<in> set m \<longrightarrow> 0 < n) \<and> (m \<noteq> [] \<longrightarrow> x \<in> rnames st')"
  proof
    assume "(x, m) = (r, m')"
    then show ?thesis using m' r rn by simp
  next
    assume "(x, m) \<in> set (assignments st)"
    from ledger_okD[OF ok this] show ?thesis using rn by simp
  qed
qed

lemma ledger_ok_setAssigned:
  assumes "ledger_ok st" and "0 < v" and "r \<in> rnames st"
  shows "ledger_ok (setAssigned st r p v)"
proof (rule ledger_ok_replace[OF assms(1), where r = r and m' = "AList.update p v (assignedOf st r)"])
  show "set (assignments (setAssigned st r p v))
      \<subseteq> insert (r, AList.update p v (assignedOf st r)) (set (assignments st))"
    unfolding setAssigned_def by (simp add: set_update_subset)
  show "\<forall>p' n. (p', n) \<in> set (AList.update p v (assignedOf st r)) \<longrightarrow> 0 < n"
  proof (clarify)
    fix p' n assume "(p', n) \<in> set (AList.update p v (assignedOf st r))"
    then have "(p', n) = (p, v) \<or> (p', n) \<in> set (assignedOf st r)"
      using set_update_subset[of p v "assignedOf st r"] by blast
    then show "0 < n" using assms(1,2) ledger_ok_entry by blast
  qed
  show "AList.update p v (assignedOf st r) \<noteq> [] \<longrightarrow> r \<in> rnames st" using assms(3) by simp
  show "rnames (setAssigned st r p v) = rnames st" by simp
qed

lemma ledger_ok_addAssigned:
  "ledger_ok st \<Longrightarrow> 1 \<le> n \<Longrightarrow> r \<in> rnames st \<Longrightarrow> ledger_ok (addAssigned st r p n)"
  unfolding addAssigned_def
  using heldOf_nonneg[of st r p] by (intro ledger_ok_setAssigned) auto

lemma update_update_same: "AList.update k v (AList.update k w al) = AList.update k v al"
  by (induction al) auto

lemma ledger_ok_lower:
  assumes "ledger_ok st" and "0 \<le> v" and "r \<in> rnames st"
  shows "ledger_ok (if v = 0 then deleteAssigned (setAssigned st r p v) r p
                    else setAssigned st r p v)"
proof (cases "v = 0")
  case False
  with assms show ?thesis by (simp add: ledger_ok_setAssigned)
next
  case True
  let ?m = "AList.delete p (AList.update p 0 (assignedOf st r))"
  have sub: "set ?m \<subseteq> set (assignedOf st r)"
  proof
    fix x assume x: "x \<in> set ?m"
    then have "x \<in> set (AList.update p 0 (assignedOf st r))"
      using set_delete_subset by fast
    then have "x = (p, 0) \<or> x \<in> set (assignedOf st r)"
      using set_update_subset[of p 0 "assignedOf st r"] by blast
    moreover have "x \<noteq> (p, 0)"
      using x delete_no_key[of p 0 "AList.update p 0 (assignedOf st r)"] by auto
    ultimately show "x \<in> set (assignedOf st r)" by simp
  qed
  have a: "assignments (deleteAssigned (setAssigned st r p 0) r p)
      = AList.update r ?m (assignments st)"
    by (simp add: deleteAssigned_def assignedOf_setAssigned)
       (simp add: setAssigned_def update_update_same)
  have "ledger_ok (deleteAssigned (setAssigned st r p 0) r p)"
  proof (rule ledger_ok_replace[OF assms(1), where r = r and m' = ?m])
    show "set (assignments (deleteAssigned (setAssigned st r p 0) r p))
        \<subseteq> insert (r, ?m) (set (assignments st))"
      unfolding a by (rule set_update_subset)
    show "\<forall>p' n. (p', n) \<in> set ?m \<longrightarrow> 0 < n"
      using sub assms(1) ledger_ok_entry by blast
    show "?m \<noteq> [] \<longrightarrow> r \<in> rnames st" using assms(3) by simp
    show "rnames (deleteAssigned (setAssigned st r p 0) r p) = rnames st" by simp
  qed
  with True show ?thesis by simp
qed

lemma ledger_ok_frames [simp]:
  "ledger_ok (setQueue st r q) = ledger_ok st"
  "ledger_ok (setProcessState st n s) = ledger_ok st"
  "ledger_ok (pushLog st l) = ledger_ok st"
  by (simp_all add: ledger_ok_def)

lemma ledger_ok_ensure: "ledger_ok st \<Longrightarrow> ledger_ok (ensureResourceMaps st r)"
  by (auto simp: ledger_ok_def ensureResourceMaps_def Let_def rnames_def)

subsection \<open>The wait queues\<close>

lemma queues_ok_frames [simp]:
  "queues_ok (setAssigned st r p v) = queues_ok st"
  "queues_ok (deleteAssigned st r p) = queues_ok st"
  "queues_ok (addAssigned st r p v) = queues_ok st"
  "queues_ok (setProcessState st n s) = queues_ok st"
  "queues_ok (pushLog st l) = queues_ok st"
  by (simp_all add: queues_ok_def)

lemma queues_ok_ensure: "queues_ok st \<Longrightarrow> queues_ok (ensureResourceMaps st r)"
  by (auto simp: queues_ok_def ensureResourceMaps_def Let_def rnames_def pnames_def
      map_of_eq_None_iff)

lemma queues_ok_setQueue:
  assumes ok: "queues_ok st"
    and q: "\<forall>e \<in> set q. 1 \<le> count e \<and> process e \<in> pnames st"
    and r: "q \<noteq> [] \<longrightarrow> r \<in> rnames st"
  shows "queues_ok (setQueue st r q)"
proof -
  have d: "distinct (map fst (waitingRequests (setQueue st r q)))"
    using ok by (simp add: queues_ok_def setQueue_def distinct_update)
  have e: "(\<forall>e \<in> set q'. 1 \<le> count e \<and> process e \<in> pnames st) \<and> (q' \<noteq> [] \<longrightarrow> x \<in> rnames st)"
    if "(x, q') \<in> set (waitingRequests (setQueue st r q))" for x q'
  proof -
    from that have "(x, q') = (r, q) \<or> (x, q') \<in> set (waitingRequests st)"
      using set_update_subset[of r q "waitingRequests st"] by (auto simp: setQueue_def)
    then show ?thesis using ok q r unfolding queues_ok_def by blast
  qed
  show ?thesis
    unfolding queues_ok_def using d e by simp
qed

lemma queues_ok_enqueue:
  "queues_ok st \<Longrightarrow> r \<in> rnames st \<Longrightarrow> 1 \<le> c \<Longrightarrow> p \<in> pnames st \<Longrightarrow>
   queues_ok (setQueue st r (queueOf st r @ [\<lparr>process = p, count = c\<rparr>]))"
  by (rule queues_ok_setQueue) (auto dest: queues_ok_entry)

lemma queues_ok_dequeue:
  assumes "queues_ok st"
  shows "queues_ok (setQueue st r (take i (queueOf st r) @ drop (Suc i) (queueOf st r)))"
proof (rule queues_ok_setQueue[OF assms])
  show "\<forall>e \<in> set (take i (queueOf st r) @ drop (Suc i) (queueOf st r)).
          1 \<le> count e \<and> process e \<in> pnames st"
    using assms by (auto dest!: in_set_takeD in_set_dropD dest: queues_ok_entry)
  show "take i (queueOf st r) @ drop (Suc i) (queueOf st r) \<noteq> [] \<longrightarrow> r \<in> rnames st"
    using queues_ok_resource[OF assms, of r] by (cases "queueOf st r = []") auto
qed

subsection \<open>Availability\<close>

lemma avail_ok_frames [simp]:
  "avail_ok (setQueue st r q) = avail_ok st"
  "avail_ok (setProcessState st n s) = avail_ok st"
  "avail_ok (pushLog st l) = avail_ok st"
  "avail_ok (ensureResourceMaps st r) = avail_ok st"
  by (simp_all add: avail_ok_def)

lemma heldOf_case: "(case map_of (assignedOf st r) p of None \<Rightarrow> 0 | Some x \<Rightarrow> x) = heldOf st r p"
  by (simp add: heldOf_def)

lemma availableOf_setAssigned:
  "availableOf (setAssigned st r p v) r'
     = (if r' = r \<and> r \<in> rnames st then availableOf st r + heldOf st r p - v
        else availableOf st r')"
  using getResource_iff(1)[of st r]
  by (auto simp: availableOf_def assignedOf_setAssigned sum_snd_update heldOf_case
      split: option.splits)

lemma availableOf_addAssigned:
  "availableOf (addAssigned st r p n) r'
     = (if r' = r \<and> r \<in> rnames st then availableOf st r - n else availableOf st r')"
  by (simp add: addAssigned_def availableOf_setAssigned)

lemma availableOf_deleteAssigned_ge:
  "\<forall>p' n. (p', n) \<in> set (assignedOf st r) \<longrightarrow> 0 \<le> n \<Longrightarrow>
   availableOf st r' \<le> availableOf (deleteAssigned st r p) r'"
proof -
  assume a: "\<forall>p' n. (p', n) \<in> set (assignedOf st r) \<longrightarrow> 0 \<le> n"
  then have "\<forall>(p', n) \<in> set (assignedOf st r). 0 \<le> n" by auto
  from sum_snd_delete_le[OF this, of p]
  show ?thesis
    by (auto simp: availableOf_def assignedOf_deleteAssigned split: option.splits)
qed

lemma avail_ok_addAssigned:
  "avail_ok st \<Longrightarrow> n \<le> availableOf st r \<Longrightarrow> avail_ok (addAssigned st r p n)"
  by (auto simp: avail_ok_def availableOf_addAssigned)

lemma avail_ok_lower:
  assumes "avail_ok st" and "ledger_ok st" and "0 \<le> v" and "v \<le> heldOf st r p"
  shows "avail_ok (if v = 0 then deleteAssigned (setAssigned st r p v) r p
                   else setAssigned st r p v)"
proof -
  have s: "availableOf st r' \<le> availableOf (setAssigned st r p v) r'" for r'
    using assms(4) by (simp add: availableOf_setAssigned)
  have nn: "\<forall>p' n. (p', n) \<in> set (assignedOf (setAssigned st r p v) r) \<longrightarrow> 0 \<le> n"
  proof (clarify)
    fix p' n assume "(p', n) \<in> set (assignedOf (setAssigned st r p v) r)"
    then have "(p', n) = (p, v) \<or> (p', n) \<in> set (assignedOf st r)"
      using set_update_subset[of p v "assignedOf st r"] by (auto simp: assignedOf_setAssigned)
    then show "0 \<le> n" using assms(2,3) ledger_ok_entry[of st p' n r] by auto
  qed
  have d: "availableOf st r' \<le> availableOf (deleteAssigned (setAssigned st r p v) r p) r'" for r'
    using availableOf_deleteAssigned_ge[OF nn, of r' p] s[of r'] by linarith
  show ?thesis
    using assms(1) s d unfolding avail_ok_def
    by (auto intro: order_trans)
qed

subsection \<open>The whole invariant\<close>

lemma wf_state_frames [simp]:
  "wf_state (pushLog st l) = wf_state st"
  "wf_state (setProcessState st n s) = wf_state st"
  by (simp_all add: wf_state_def)

lemma wf_state_ensure: "wf_state st \<Longrightarrow> wf_state (ensureResourceMaps st r)"
  by (simp add: wf_state_def ledger_ok_ensure queues_ok_ensure)

lemma wf_state_grant:
  "wf_state st \<Longrightarrow> r \<in> rnames st \<Longrightarrow> 1 \<le> n \<Longrightarrow> n \<le> availableOf st r \<Longrightarrow>
   wf_state (addAssigned st r p n)"
  by (simp add: wf_state_def ledger_ok_addAssigned avail_ok_addAssigned)

lemma wf_state_enqueue:
  "wf_state st \<Longrightarrow> r \<in> rnames st \<Longrightarrow> 1 \<le> c \<Longrightarrow> p \<in> pnames st \<Longrightarrow>
   wf_state (setQueue st r (queueOf st r @ [\<lparr>process = p, count = c\<rparr>]))"
  by (simp add: wf_state_def queues_ok_enqueue)

lemma wf_state_dequeue:
  "wf_state st \<Longrightarrow>
   wf_state (setQueue st r (take i (queueOf st r) @ drop (Suc i) (queueOf st r)))"
  by (simp add: wf_state_def queues_ok_dequeue)

lemma wf_state_lower:
  assumes "wf_state st" and "0 \<le> v" and "v \<le> heldOf st r p" and "r \<in> rnames st"
  shows "wf_state (if v = 0 then deleteAssigned (setAssigned st r p v) r p
                   else setAssigned st r p v)"
  using assms ledger_ok_lower[of st v r p] avail_ok_lower[of st v r p]
  by (simp add: wf_state_def)

subsection \<open>The avoidance test never throws on a well-formed state\<close>

lemma map_of_key: "(map_of al k = None) = (k \<notin> fst ` set al)"
  by (simp add: map_of_eq_None_iff)

lemma addHolders_Some:
  "w \<in> fst ` set adj \<Longrightarrow>
   \<exists>adj'. addHolders adj w hs = Some adj' \<and> fst ` set adj' = fst ` set adj"
proof (induction hs arbitrary: adj)
  case Nil
  then show ?case by simp
next
  case (Cons h hs)
  from Cons.prems obtain s where s: "map_of adj w = Some s"
    using map_of_key[of adj w] by auto
  have k: "fst ` set (AList.update w (set_add h s) adj) = fst ` set adj"
    using Cons.prems by (auto simp: dom_update)
  from Cons.IH[of "AList.update w (set_add h s) adj"] Cons.prems k
  show ?case by (simp add: s)
qed

lemma addWaiters_Some:
  "\<forall>e \<in> set q. process e \<in> fst ` set adj \<Longrightarrow>
   \<exists>adj'. addWaiters adj avail hs q = Some adj' \<and> fst ` set adj' = fst ` set adj"
proof (induction q arbitrary: adj)
  case Nil
  then show ?case by simp
next
  case (Cons e q)
  show ?case
  proof (cases "avail \<ge> count e")
    case True
    with Cons show ?thesis by simp
  next
    case False
    from Cons.prems have "process e \<in> fst ` set adj" by simp
    from addHolders_Some[OF this, of hs] obtain adj1 where
      a: "addHolders adj (process e) hs = Some adj1" "fst ` set adj1 = fst ` set adj" by blast
    from Cons.IH[of adj1] Cons.prems a(2) obtain adj2 where
      "addWaiters adj1 avail hs q = Some adj2" "fst ` set adj2 = fst ` set adj1" by auto
    with a False show ?thesis by simp
  qed
qed

lemma wfgResources_Some:
  "\<forall>r \<in> set rs. \<forall>e \<in> set (queueOf st (r_name r)). process e \<in> fst ` set adj \<Longrightarrow>
   \<exists>adj'. wfgResources st adj rs = Some adj'"
proof (induction rs arbitrary: st adj)
  case Nil
  then show ?case by simp
next
  case (Cons r rs)
  let ?st1 = "ensureResourceMaps st (r_name r)"
  from Cons.prems have "\<forall>e \<in> set (queueOf ?st1 (r_name r)). process e \<in> fst ` set adj" by simp
  from addWaiters_Some[OF this] obtain adj1 where
    a: "addWaiters adj (availableOf ?st1 (r_name r)) (object_keys (assignedOf ?st1 (r_name r)))
          (queueOf ?st1 (r_name r)) = Some adj1" "fst ` set adj1 = fst ` set adj"
    by blast
  have "\<forall>x \<in> set rs. \<forall>e \<in> set (queueOf ?st1 (r_name x)). process e \<in> fst ` set adj1"
    using Cons.prems a(2) by simp
  from Cons.IH[OF this] a(1) show ?case by (simp add: Let_def)
qed

lemma adj0_keys:
  "fst ` set (foldl (\<lambda>adj p. AList.update (p_name p) [] adj) acc ps)
     = fst ` set acc \<union> p_name ` set ps"
  by (induction ps arbitrary: acc) (auto simp: dom_update)

lemma buildWFG_Some:
  assumes "\<forall>r \<in> set (resources st). \<forall>e \<in> set (queueOf st (r_name r)). process e \<in> pnames st"
  shows "\<exists>g. buildWFG st = Some g"
proof -
  let ?adj0 = "foldl (\<lambda>adj p. AList.update (p_name p) [] adj) [] (processes st)"
  have k: "fst ` set ?adj0 = pnames st"
    using adj0_keys[of "[]" "processes st"] by (simp add: pnames_def)
  have "\<forall>r \<in> set (resources st). \<forall>e \<in> set (queueOf st (r_name r)). process e \<in> fst ` set ?adj0"
    unfolding k using assms .
  from wfgResources_Some[OF this]
  obtain adj where "wfgResources st ?adj0 (resources st) = Some adj" by blast
  then show ?thesis by (simp add: buildWFG_def Let_def)
qed

lemma stateHasDefiniteCycle_Some:
  "\<exists>g. buildWFG st = Some g \<Longrightarrow> \<exists>info. stateHasDefiniteCycle st = Some info"
  by (auto simp: stateHasDefiniteCycle_def detectDeadlock_def Let_def)

lemma queues_ok_all:
  "queues_ok st \<Longrightarrow> \<forall>r \<in> set (resources st). \<forall>e \<in> set (queueOf st (r_name r)). process e \<in> pnames st"
  by (auto dest: queues_ok_entry)

lemma from_serialize_names:
  "pnames (RAGState_from (serialize st)) = pnames st"
  "map r_name (resources (RAGState_from (serialize st))) = map r_name (resources st)"
  "waitingRequests (RAGState_from (serialize st)) = waitingRequests st"
  by (simp_all add: pnames_def RAGState_from_def serialize_def newProcess_def newResource_def
      o_def image_image)

lemma queueOf_from_serialize [simp]: "queueOf (RAGState_from (serialize st)) r = queueOf st r"
  by (simp add: queueOf_def from_serialize_names)

lemma resources_names_set:
  "map r_name xs = map r_name ys \<Longrightarrow> (\<forall>r \<in> set xs. P (r_name r)) = (\<forall>r \<in> set ys. P (r_name r))"
proof -
  assume "map r_name xs = map r_name ys"
  then have "r_name ` set xs = r_name ` set ys" by (metis set_map)
  then show ?thesis by (metis (no_types, lifting) image_iff)
qed

lemma grantWould_Some:
  assumes "queues_ok st"
  shows "\<exists>info. grantWouldCreateDefiniteCycle st p r c = Some info"
proof -
  let ?n = "nextAfterGrant st p r c"
  have q: "queueOf ?n r' = queueOf st r'" for r'
    by (simp add: nextAfterGrant_def Let_def)
  have pn: "pnames ?n = pnames st"
    by (simp add: nextAfterGrant_def Let_def from_serialize_names)
  have rn: "map r_name (resources ?n) = map r_name (resources st)"
    by (simp add: nextAfterGrant_def Let_def from_serialize_names)
  have "\<forall>x \<in> set (resources ?n). \<forall>e \<in> set (queueOf ?n (r_name x)). process e \<in> pnames ?n"
    unfolding q pn
    using resources_names_set[OF rn, of "\<lambda>n. \<forall>e \<in> set (queueOf st n). process e \<in> pnames st"]
      queues_ok_all[OF assms] by simp
  from stateHasDefiniteCycle_Some[OF buildWFG_Some[OF this]]
  show ?thesis by (simp add: grantWouldCreateDefiniteCycle_def)
qed

lemma addWaitWould_Some:
  assumes "queues_ok st" and "p \<in> pnames st"
  shows "\<exists>info. addWaitWouldCreateDefiniteCycle st p r c = Some info"
proof -
  let ?n = "nextAfterWait st p r c"
  have q: "queueOf ?n r' = (if r' = r then queueOf st r @ [\<lparr>process = p, count = normCount c\<rparr>]
                            else queueOf st r')" for r'
    by (simp add: nextAfterWait_def Let_def queueOf_setQueue_other)
  have pn: "pnames ?n = pnames st"
    by (simp add: nextAfterWait_def Let_def from_serialize_names)
  have rn: "map r_name (resources ?n) = map r_name (resources st)"
    by (simp add: nextAfterWait_def Let_def from_serialize_names)
  have "\<forall>x \<in> set (resources ?n). \<forall>e \<in> set (queueOf ?n (r_name x)). process e \<in> pnames ?n"
    unfolding pn
    using resources_names_set[OF rn, of "\<lambda>n. \<forall>e \<in> set (queueOf ?n n). process e \<in> pnames st"]
      queues_ok_all[OF assms(1)] assms(2) by (simp add: q)
  from stateHasDefiniteCycle_Some[OF buildWFG_Some[OF this]]
  show ?thesis by (simp add: addWaitWouldCreateDefiniteCycle_def)
qed

subsection \<open>The operations keep the invariant and return\<close>

lemma wf_state_rnames_pushLog [simp]:
  "availableOf (pushLog st l) r = availableOf st r"
  by simp

lemma wf_commitGrant:
  "wf_state st \<Longrightarrow> r \<in> rnames st \<Longrightarrow> 1 \<le> n \<Longrightarrow> n \<le> availableOf st r \<Longrightarrow>
   wf_state (commitGrant st p r n)"
  by (simp add: commitGrant_def Let_def wf_state_grant)

lemma wf_commitWait:
  "wf_state st \<Longrightarrow> r \<in> rnames st \<Longrightarrow> 1 \<le> n \<Longrightarrow> p \<in> pnames st \<Longrightarrow>
   wf_state (commitWait st p r n)"
  by (simp add: commitWait_def Let_def wf_state_enqueue)

lemma wf_queues: "wf_state st \<Longrightarrow> queues_ok st"
  by (simp add: wf_state_def)

lemma request_wf:
  assumes "wf_state st"
  shows "\<exists>st' res. request st p r c e = Some (st', res) \<and> wf_state st'"
proof (cases "getProcess st p = None \<or> getResource st r = None")
  case True
  then show ?thesis using assms by (simp add: request_def)
next
  case False
  define st1 where "st1 = ensureResourceMaps st r"
  have w1: "wf_state st1" using assms by (simp add: st1_def wf_state_ensure)
  have p: "p \<in> pnames st1" and r: "r \<in> rnames st1"
    using False getProcess_iff(1)[of st p] getResource_iff(1)[of st r] by (auto simp: st1_def)
  obtain gi where gi: "grantWouldCreateDefiniteCycle st1 p r (Some (normCount c)) = Some gi"
    using grantWould_Some[OF wf_queues[OF w1]] by blast
  obtain wi where wi: "addWaitWouldCreateDefiniteCycle st1 p r (Some (normCount c)) = Some wi"
    using addWaitWould_Some[OF wf_queues[OF w1] p] by blast
  have g: "wf_state (commitGrant st1 p r (normCount c))"
      "wf_state (commitGrant (pushLog st1 l) p r (normCount c))"
    if "normCount c \<le> availableOf st1 r" for l
    using that w1 r normCount_ge1[of c] by (auto intro!: wf_commitGrant)
  have w: "wf_state (commitWait st1 p r (normCount c))"
      "wf_state (commitWait (pushLog st1 l) p r (normCount c))" for l
    using w1 r p normCount_ge1[of c] by (auto intro!: wf_commitWait)
  show ?thesis
    unfolding request_def Let_def st1_def[symmetric]
    using False assms w1 g w by (auto simp: gi wi)
qed

lemma wf_grantFromQueue:
  assumes "wf_state st" and "i < length (queueOf st r)"
    and "count (queueOf st r ! i) \<le> availableOf st r"
  shows "wf_state (grantFromQueue st r i (queueOf st r ! i))"
proof -
  let ?e = "queueOf st r ! i"
  have e: "1 \<le> count ?e"
    using queues_ok_entry[OF wf_queues[OF assms(1)], of ?e r] assms(2) by simp
  have r: "r \<in> rnames st"
    using queues_ok_resource[OF wf_queues[OF assms(1)], of r] assms(2)
    by (cases "queueOf st r = []") auto
  have a: "wf_state (addAssigned st r (process ?e) (count ?e))"
    using assms(1,3) e r by (rule_tac wf_state_grant) auto
  have "wf_state (setQueue (addAssigned st r (process ?e) (count ?e)) r
      (take i (queueOf (addAssigned st r (process ?e) (count ?e)) r)
       @ drop (Suc i) (queueOf (addAssigned st r (process ?e) (count ?e)) r)))"
    by (rule wf_state_dequeue[OF a])
  then show ?thesis
    by (simp add: grantFromQueue_def Let_def)
qed

lemma tryGrantLoop_wf:
  "wf_state st \<Longrightarrow> \<exists>st' ch'. tryGrantLoop st r i ch = Some (st', ch') \<and> wf_state st'"
proof (induction st r i ch rule: tryGrantLoop.induct)
  case (1 st resName i changed)
  note wf = "1.prems"
  show ?case
  proof (cases "i < length (queueOf st resName)")
    case False
    then show ?thesis using wf by (subst tryGrantLoop.simps) simp
  next
    case True
    let ?e = "queueOf st resName ! i"
    show ?thesis
    proof (cases "count ?e \<le> availableOf st resName")
      case False
      from "1.IH"(5)[OF True refl refl _ wf] False True
      show ?thesis by (subst tryGrantLoop.simps) (simp add: Let_def)
    next
      case True
      note sat = True
      have g: "wf_state (grantFromQueue st resName i ?e)"
        using wf \<open>i < length (queueOf st resName)\<close> sat by (rule wf_grantFromQueue)
      have gl: "wf_state (grantFromQueue (pushLog st l) resName i ?e)" for l
        using wf_grantFromQueue[of "pushLog st l" i resName] wf
          \<open>i < length (queueOf st resName)\<close> sat by simp
      show ?thesis
      proof (cases "avoidance st")
        case False
        from "1.IH"(4)[OF \<open>i < length (queueOf st resName)\<close> refl refl _ False g] sat False
          \<open>i < length (queueOf st resName)\<close>
        show ?thesis by (subst tryGrantLoop.simps) (simp add: Let_def)
      next
        case True
        obtain info where
          info: "grantWouldCreateDefiniteCycle st (process ?e) resName (Some (count ?e)) = Some info"
          using grantWould_Some[OF wf_queues[OF wf]] by blast
        consider (den) "dc_hasCycle info \<and> definite info"
          | (pot) "\<not> (dc_hasCycle info \<and> definite info)" "dc_hasCycle info \<and> \<not> definite info"
          | (non) "\<not> (dc_hasCycle info \<and> definite info)" "\<not> (dc_hasCycle info \<and> \<not> definite info)"
          by blast
        then show ?thesis
        proof cases
          case den
          from "1.IH"(1)[OF \<open>i < length (queueOf st resName)\<close> refl refl _ True info den wf]
            sat True den info \<open>i < length (queueOf st resName)\<close>
          show ?thesis by (subst tryGrantLoop.simps) (simp add: Let_def)
        next
          case pot
          from "1.IH"(2)[OF \<open>i < length (queueOf st resName)\<close> refl refl _ True info pot gl]
            sat True pot info \<open>i < length (queueOf st resName)\<close>
          show ?thesis by (subst tryGrantLoop.simps) (simp add: Let_def)
        next
          case non
          from "1.IH"(3)[OF \<open>i < length (queueOf st resName)\<close> refl refl _ True info non g]
            sat True non info \<open>i < length (queueOf st resName)\<close>
          show ?thesis by (subst tryGrantLoop.simps) (simp add: Let_def)
        qed
      qed
    qed
  qed
qed

lemma tryGrantWaiting_wf:
  "wf_state st \<Longrightarrow> \<exists>st' ch. tryGrantWaiting st r = Some (st', ch) \<and> wf_state st'"
  unfolding tryGrantWaiting_def by (rule tryGrantLoop_wf) (rule wf_state_ensure)

lemma release_wf:
  assumes "wf_state st"
  shows "\<exists>st' res. release st p r c = Some (st', res) \<and> wf_state st'"
proof (cases "getProcess st p = None \<or> getResource st r = None")
  case True
  then show ?thesis using assms by (simp add: release_def)
next
  case False
  define st1 where "st1 = ensureResourceMaps st r"
  have w1: "wf_state st1" using assms by (simp add: st1_def wf_state_ensure)
  have r: "r \<in> rnames st1"
    using False getResource_iff(1)[of st r] by (auto simp: st1_def)
  show ?thesis
  proof (cases "heldOf st1 r p \<le> 0")
    case True
    then show ?thesis
      unfolding release_def Let_def st1_def[symmetric]
      using False w1 by auto
  next
    case held: False
    define rel where "rel = min (normCount c) (heldOf st1 r p)"
    define st3 where "st3 = (if heldOf st1 r p - rel = 0
        then deleteAssigned (setAssigned st1 r p (heldOf st1 r p - rel)) r p
        else setAssigned st1 r p (heldOf st1 r p - rel))"
    have "0 \<le> heldOf st1 r p - rel" "heldOf st1 r p - rel \<le> heldOf st1 r p"
      using held normCount_ge1[of c] by (auto simp: rel_def)
    from wf_state_lower[OF w1 this r]
    have w3: "wf_state st3" by (simp add: st3_def)
    from tryGrantWaiting_wf[of "pushLog st3 (ReleasedLog p rel r (availableOf st3 r))" r] w3
    obtain st5 ch where
      t: "tryGrantWaiting (pushLog st3 (ReleasedLog p rel r (availableOf st3 r))) r = Some (st5, ch)"
        "wf_state st5"
      by auto
    show ?thesis
      unfolding release_def Let_def st1_def[symmetric] rel_def[symmetric]
      using False held t
      by (auto simp: st3_def split: if_splits)
  qed
qed

lemma grantAll_wf:
  "wf_state st \<Longrightarrow> \<exists>st' ch'. grantAll st rs ch = Some (st', ch') \<and> wf_state st'"
proof (induction rs arbitrary: st ch)
  case Nil
  then show ?case by simp
next
  case (Cons r rs)
  from tryGrantWaiting_wf[OF Cons.prems, of "r_name r"] obtain st1 c1 where
    t: "tryGrantWaiting st (r_name r) = Some (st1, c1)" "wf_state st1" by blast
  from Cons.IH[OF t(2), of "c1 \<or> ch"] t(1) show ?case by simp
qed

lemma availableOf_field_updates [simp]:
  "availableOf (st\<lparr>processes := ps\<rparr>) r = availableOf st r"
  "availableOf (st\<lparr>step := n\<rparr>) r = availableOf st r"
  "availableOf (st\<lparr>eventQueue := q\<rparr>) r = availableOf st r"
  "availableOf (st\<lparr>avoidance := b\<rparr>) r = availableOf st r"
  by (simp_all add: availableOf_def getResource_def assignedOf_def split: option.splits)

lemma wf_state_recompute [simp]: "wf_state (recomputeStates st) = wf_state st"
  by (simp add: wf_state_def recomputeStates_def ledger_ok_def queues_ok_def avail_ok_def
      pnames_def rnames_def o_def image_image)

lemma wf_state_simple [simp]:
  "wf_state (st\<lparr>step := n\<rparr>) = wf_state st"
  "wf_state (st\<lparr>eventQueue := q\<rparr>) = wf_state st"
  "wf_state (st\<lparr>avoidance := b\<rparr>) = wf_state st"
  by (simp_all add: wf_state_def ledger_ok_def queues_ok_def avail_ok_def pnames_def rnames_def)

lemma stepForward_form:
  assumes "wf_state st"
  shows "\<exists>st3. stepForward st autoGrant = Some (recomputeStates st3) \<and> wf_state st3"
proof (cases "eventQueue st")
  case Nil
  show ?thesis
  proof (cases autoGrant)
    case False
    have "stepForward st autoGrant = Some (recomputeStates (st\<lparr>step := step st + 1\<rparr>))"
      using Nil False by (simp add: stepForward_def Let_def)
    moreover have "wf_state (st\<lparr>step := step st + 1\<rparr>)" using assms by simp
    ultimately show ?thesis by blast
  next
    case True
    from grantAll_wf[of "st\<lparr>step := step st + 1\<rparr>" "resources st" False] assms
    obtain st2 ch where
      g: "grantAll (st\<lparr>step := step st + 1\<rparr>) (resources st) False = Some (st2, ch)" "wf_state st2"
      by auto
    have "stepForward st autoGrant
        = Some (recomputeStates (if \<not> ch then pushLog st2 NoOpStepLog else st2))"
      using Nil True g by (simp add: stepForward_def Let_def)
    moreover have "wf_state (if \<not> ch then pushLog st2 NoOpStepLog else st2)"
      using g(2) by simp
    ultimately show ?thesis by blast
  qed
next
  case (Cons evt rest)
  let ?s = "st\<lparr>step := step st + 1, eventQueue := rest\<rparr>"
  have w: "wf_state ?s" using assms by simp
  from request_wf[OF w, of "e_process evt" "e_resource evt" "e_count evt" True]
  obtain s1 r1 where
    rq: "request ?s (e_process evt) (e_resource evt) (e_count evt) True = Some (s1, r1)" "wf_state s1"
    by blast
  from release_wf[OF w, of "e_process evt" "e_resource evt" "e_count evt"]
  obtain s2 r2 where
    rl: "release ?s (e_process evt) (e_resource evt) (e_count evt) = Some (s2, r2)" "wf_state s2"
    by blast
  let ?x = "if e_type evt = ''request'' then s1 else if e_type evt = ''release'' then s2 else ?s"
  have "stepForward st autoGrant = Some (recomputeStates ?x)"
    using Cons rq rl by (simp add: stepForward_def Let_def)
  moreover have "wf_state ?x" using rq rl w by simp
  ultimately show ?thesis by blast
qed

lemma stepForward_wf:
  "wf_state st \<Longrightarrow> \<exists>st'. stepForward st autoGrant = Some st' \<and> wf_state st'"
  using stepForward_form[of st autoGrant] by auto

lemma find_append_new:
  "find P (xs @ [y]) = (case find P xs of Some x \<Rightarrow> Some x | None \<Rightarrow> if P y then Some y else None)"
  by (induction xs) auto

lemma addProcess_wf: "wf_state st \<Longrightarrow> wf_state (fst (addProcess st name))"
proof -
  assume w: "wf_state st"
  show ?thesis
  proof (cases "name = [] \<or> getProcess st name \<noteq> None")
    case True
    then show ?thesis using w by (auto simp: addProcess_def)
  next
    case False
    then have n: "name \<notin> pnames st" using getProcess_iff(1)[of st name] by auto
    let ?s = "st\<lparr>processes := processes st @ [newProcess name]\<rparr>"
    have pn: "pnames ?s = insert name (pnames st)"
      by (auto simp: pnames_def newProcess_def)
    have "distinct (map p_name (processes ?s))"
      using w n by (simp add: wf_state_def pnames_def newProcess_def)
    moreover have "ledger_ok ?s" using w by (simp add: wf_state_def ledger_ok_def rnames_def)
    moreover have "queues_ok ?s"
      using w unfolding wf_state_def queues_ok_def pn by (auto simp: rnames_def)
    moreover have "avail_ok ?s"
      using w by (simp add: wf_state_def avail_ok_def)
    ultimately have "wf_state ?s" using w by (simp add: wf_state_def)
    with False show ?thesis by (simp add: addProcess_def)
  qed
qed

lemma addResource_wf: "wf_state st \<Longrightarrow> wf_state (fst (addResource st name instances))"
proof -
  assume w: "wf_state st"
  show ?thesis
  proof (cases "name = [] \<or> getResource st name \<noteq> None")
    case True
    then show ?thesis using w by (auto simp: addResource_def)
  next
    case False
    then have n: "name \<notin> rnames st" using getResource_iff(1)[of st name] by auto
    let ?new = "newResource name instances"
    let ?s = "st\<lparr>resources := resources st @ [?new]\<rparr>"
    have rn: "rnames ?s = insert name (rnames st)"
      by (auto simp: rnames_def newResource_def)
    have e: "assignedOf st name = []"
      using ledger_ok_resource[of st name] w n by (auto simp: wf_state_def)
    have d: "distinct (map r_name (resources ?s))"
      using w n by (simp add: wf_state_def rnames_def newResource_def)
    have l: "ledger_ok ?s"
      using w unfolding wf_state_def ledger_ok_def rn by auto
    have q: "queues_ok ?s"
      using w unfolding wf_state_def queues_ok_def rn by (auto simp: pnames_def)
    have av: "availableOf ?s x = (if x = name then r_total ?new else availableOf st x)" for x
      using False e
      by (auto simp: availableOf_def getResource_def find_append_new assignedOf_def
          newResource_def split: option.splits)
    have a: "avail_ok ?s"
      using w unfolding wf_state_def avail_ok_def av by (simp add: newResource_def)
    have "wf_state ?s" using w d l q a by (simp add: wf_state_def)
    then have "wf_state (ensureResourceMaps ?s name)" by (rule wf_state_ensure)
    with False show ?thesis by (simp add: addResource_def)
  qed
qed

lemma wf_state_new: "wf_state newRAGState"
  by (simp add: wf_state_def newRAGState_def ledger_ok_def queues_ok_def avail_ok_def
      availableOf_def getResource_def)

lemma perform_wf:
  "wf_state st \<Longrightarrow> \<exists>st'. perform x st = Some st' \<and> wf_state st'"
proof (cases x)
  case (Request p r c e)
  assume "wf_state st"
  from request_wf[OF this, of p r c e] Request show ?thesis by auto
next
  case (Release p r c)
  assume "wf_state st"
  from release_wf[OF this, of p r c] Release show ?thesis by auto
next
  case (TryGrantWaiting r)
  assume "wf_state st"
  from tryGrantWaiting_wf[OF this, of r] TryGrantWaiting show ?thesis by auto
next
  case (StepForward b)
  assume "wf_state st"
  from stepForward_wf[OF this, of b] StepForward show ?thesis by auto
qed (auto simp: addProcess_wf addResource_wf enqueueEvent_def clearEvents_def)

lemma run_wf:
  "wf_state st \<Longrightarrow> \<exists>st'. run xs st = Some st' \<and> wf_state st'"
proof (induction xs arbitrary: st)
  case Nil
  then show ?case by simp
next
  case (Cons x xs)
  from perform_wf[OF Cons.prems, of x] obtain st1 where
    p: "perform x st = Some st1" "wf_state st1" by blast
  from Cons.IH[OF p(2)] p(1) show ?case by simp
qed

lemma wf_state_bounded:
  assumes "wf_state st" and "r \<in> set (resources st)"
  shows "sum_list (map snd (assignedOf st (r_name r))) \<le> r_total r"
proof -
  have "getResource st (r_name r) = Some r"
    using assms by (simp add: getResource_def wf_state_def find_distinct)
  moreover have "0 \<le> availableOf st (r_name r)"
    using assms(1) by (simp add: wf_state_def avail_ok_def)
  ultimately show ?thesis by (simp add: availableOf_def)
qed

subsection \<open>Stored states and wait-queue entries\<close>

lemma hasEntry_iff:
  "hasEntry st n \<longleftrightarrow> (\<exists>r q. (r, q) \<in> set (waitingRequests st) \<and> (\<exists>e \<in> set q. process e = n))"
proof
  assume "hasEntry st n"
  then obtain rq e where "rq \<in> set (waitingRequests st)" "e \<in> set (snd rq)" "process e = n"
    by (auto simp: hasEntry_def list_ex_iff)
  then have "(fst rq, snd rq) \<in> set (waitingRequests st) \<and> (\<exists>e \<in> set (snd rq). process e = n)"
    by auto
  then show "\<exists>r q. (r, q) \<in> set (waitingRequests st) \<and> (\<exists>e \<in> set q. process e = n)"
    by blast
next
  assume "\<exists>r q. (r, q) \<in> set (waitingRequests st) \<and> (\<exists>e \<in> set q. process e = n)"
  then obtain r q e where "(r, q) \<in> set (waitingRequests st)" "e \<in> set q" "process e = n"
    by blast
  then show "hasEntry st n"
    unfolding hasEntry_def list_ex_iff by (intro bexI[of _ "(r, q)"] bexI[of _ e]) auto
qed

lemma waitersBlocked_iff:
  "waitersBlocked st \<longleftrightarrow> (\<forall>p \<in> set (processes st). hasEntry st (p_name p) \<longrightarrow> p_state p = blocked)"
  by (simp add: waitersBlocked_def list_all_iff)

lemma hasWaitEntry_iff:
  "hasWaitEntry st n \<longleftrightarrow> (\<exists>r \<in> set (resources st). \<exists>e \<in> set (queueOf st (r_name r)). process e = n)"
  by (simp add: hasWaitEntry_def list_ex_iff)

lemma queueOf_distinct:
  "distinct (map fst (waitingRequests st)) \<Longrightarrow> (r, q) \<in> set (waitingRequests st) \<Longrightarrow>
   queueOf st r = q"
  by (simp add: queueOf_def)

lemma hasEntry_hasWaitEntry:
  assumes "queues_ok st" and "hasEntry st n"
  shows "hasWaitEntry st n"
proof -
  from assms(2) obtain r q e where
    rq: "(r, q) \<in> set (waitingRequests st)" "e \<in> set q" "process e = n"
    by (auto simp: hasEntry_iff)
  have q: "queueOf st r = q" using assms(1) rq(1) by (simp add: queues_ok_def queueOf_distinct)
  have "q \<noteq> []" using rq(2) by auto
  then have "r \<in> rnames st" using assms(1) rq(1) unfolding queues_ok_def by blast
  then obtain x where "x \<in> set (resources st)" "r_name x = r" by (auto simp: rnames_def)
  with q rq show ?thesis by (auto simp: hasWaitEntry_iff)
qed

lemma hasEntry_recompute [simp]: "hasEntry (recomputeStates st) n = hasEntry st n"
  by (simp add: hasEntry_def recomputeStates_def)

lemma waitersBlocked_recompute:
  assumes "queues_ok st"
  shows "waitersBlocked (recomputeStates st)"
  unfolding waitersBlocked_iff
proof (intro ballI impI)
  fix p assume p: "p \<in> set (processes (recomputeStates st))"
    and h: "hasEntry (recomputeStates st) (p_name p)"
  from p obtain p0 where
    p0: "p0 \<in> set (processes st)"
        "p = p0\<lparr>p_state := if hasWaitEntry st (p_name p0) then blocked else ready\<rparr>"
    by (auto simp: recomputeStates_def)
  have "hasWaitEntry st (p_name p0)"
    using hasEntry_hasWaitEntry[OF assms, of "p_name p0"] h p0(2) by simp
  then show "p_state p = blocked" using p0(2) by simp
qed

lemma hasEntry_same:
  "waitingRequests st' = waitingRequests st \<Longrightarrow> hasEntry st' n = hasEntry st n"
  by (simp add: hasEntry_def)

lemma waitersBlocked_same:
  "waitingRequests st' = waitingRequests st \<Longrightarrow> processes st' = processes st \<Longrightarrow>
   waitersBlocked st' = waitersBlocked st"
  by (simp add: waitersBlocked_def hasEntry_def)

lemma hasEntry_ensure [simp]: "hasEntry (ensureResourceMaps st r) n = hasEntry st n"
  by (auto simp: hasEntry_def ensureResourceMaps_def Let_def)

lemma waitersBlocked_ensure [simp]:
  "waitersBlocked (ensureResourceMaps st r) = waitersBlocked st"
  by (simp add: waitersBlocked_def)

lemma waitersBlocked_frames [simp]:
  "waitersBlocked (pushLog st l) = waitersBlocked st"
  "waitersBlocked (addAssigned st r p n) = waitersBlocked st"
  "waitersBlocked (st\<lparr>step := k\<rparr>) = waitersBlocked st"
  "waitersBlocked (st\<lparr>eventQueue := q\<rparr>) = waitersBlocked st"
  "waitersBlocked (st\<lparr>avoidance := b\<rparr>) = waitersBlocked st"
  by (simp_all add: waitersBlocked_def hasEntry_def)

lemma waitersBlocked_commitGrant [simp]:
  "waitersBlocked (commitGrant st p r n) = waitersBlocked st"
  by (simp add: commitGrant_def Let_def)

lemma setFirstState_mem:
  "distinct (map p_name ps) \<Longrightarrow> x \<in> set (setFirstState n s ps) \<Longrightarrow>
   (p_name x = n \<longrightarrow> p_state x = s) \<and> (p_name x \<noteq> n \<longrightarrow> x \<in> set ps)"
proof (induction ps)
  case Nil
  then show ?case by simp
next
  case (Cons a ps)
  show ?case
  proof (cases "p_name a = n")
    case True
    with Cons.prems have "x = a\<lparr>p_state := s\<rparr> \<or> x \<in> set ps" by auto
    then show ?thesis
    proof
      assume "x = a\<lparr>p_state := s\<rparr>"
      with True show ?thesis by simp
    next
      assume "x \<in> set ps"
      with Cons.prems(1) True have "p_name x \<noteq> n" by (auto simp: image_iff)
      with \<open>x \<in> set ps\<close> show ?thesis by simp
    qed
  next
    case False
    with Cons show ?thesis by auto
  qed
qed

lemma hasEntry_setQueue_append:
  assumes "hasEntry (setQueue st r (queueOf st r @ [e])) n"
  shows "hasEntry st n \<or> process e = n"
proof -
  from assms obtain k q x where
    kq: "(k, q) \<in> set (waitingRequests (setQueue st r (queueOf st r @ [e])))"
        "x \<in> set q" "process x = n"
    by (auto simp: hasEntry_iff)
  from kq(1) have "(k, q) = (r, queueOf st r @ [e]) \<or> (k, q) \<in> set (waitingRequests st)"
    using set_update_subset[of r "queueOf st r @ [e]" "waitingRequests st"]
    by (auto simp: setQueue_def)
  then show ?thesis
  proof
    assume "(k, q) \<in> set (waitingRequests st)"
    with kq show ?thesis by (auto simp: hasEntry_iff)
  next
    assume a: "(k, q) = (r, queueOf st r @ [e])"
    with kq(2) have "x = e \<or> x \<in> set (queueOf st r)" by auto
    then show ?thesis
    proof
      assume "x = e" with kq(3) show ?thesis by simp
    next
      assume x: "x \<in> set (queueOf st r)"
      then have "queueOf st r \<noteq> []" by auto
      from queueOf_mem[OF this] x kq(3) show ?thesis by (auto simp: hasEntry_iff)
    qed
  qed
qed

lemma waitersBlocked_commitWait:
  assumes "distinct (map p_name (processes st))" and "waitersBlocked st"
  shows "waitersBlocked (commitWait st p r n)"
  unfolding waitersBlocked_iff
proof (intro ballI impI)
  fix x assume x: "x \<in> set (processes (commitWait st p r n))"
    and h: "hasEntry (commitWait st p r n) (p_name x)"
  let ?q = "setQueue st r (queueOf st r @ [\<lparr>process = p, count = n\<rparr>])"
  have hq: "hasEntry (commitWait st p r n) y = hasEntry ?q y" for y
    by (rule hasEntry_same) (simp add: commitWait_def Let_def)
  from x have x': "x \<in> set (setFirstState p blocked (processes st))"
    by (simp add: commitWait_def Let_def setProcessState_def)
  from setFirstState_mem[OF assms(1) x']
  have m: "p_name x = p \<longrightarrow> p_state x = blocked" "p_name x \<noteq> p \<longrightarrow> x \<in> set (processes st)"
    by auto
  show "p_state x = blocked"
  proof (cases "p_name x = p")
    case True
    with m show ?thesis by simp
  next
    case False
    from h hq have "hasEntry ?q (p_name x)" by simp
    from hasEntry_setQueue_append[OF this] False have "hasEntry st (p_name x)" by auto
    with m False assms(2) show ?thesis by (auto simp: waitersBlocked_iff)
  qed
qed

lemma request_waitersBlocked:
  assumes "wf_state st" and "waitersBlocked st" and "request st p r c e = Some (st', res)"
  shows "waitersBlocked st'"
proof (cases "getProcess st p = None \<or> getResource st r = None")
  case True
  with assms show ?thesis by (simp add: request_def)
next
  case False
  define st1 where "st1 = ensureResourceMaps st r"
  have w1: "wf_state st1" using assms(1) by (simp add: st1_def wf_state_ensure)
  have d: "distinct (map p_name (processes st1))"
    using assms(1) by (simp add: st1_def wf_state_def)
  have pn: "p \<in> pnames st1"
    using False getProcess_iff(1)[of st p] by (auto simp: st1_def)
  have b1: "waitersBlocked st1" using assms(2) by (simp add: st1_def)
  obtain gi where gi: "grantWouldCreateDefiniteCycle st1 p r (Some (normCount c)) = Some gi"
    using grantWould_Some[OF wf_queues[OF w1]] by blast
  obtain wi where wi: "addWaitWouldCreateDefiniteCycle st1 p r (Some (normCount c)) = Some wi"
    using addWaitWould_Some[OF wf_queues[OF w1] pn] by blast
  have w: "waitersBlocked (commitWait st1 p r (normCount c))"
      "waitersBlocked (commitWait (pushLog st1 l) p r (normCount c))" for l
    using d b1 by (auto intro!: waitersBlocked_commitWait)
  have "st' \<in> {pushLog st1 (AvoidedGrantLog (normCount c) r p (cycles (deadInfo gi))),
               commitGrant (pushLog st1 (AllowedGrantLog (normCount c) r p)) p r (normCount c),
               commitGrant st1 p r (normCount c),
               pushLog st1 (AvoidedWaitLog p r (cycles (deadInfo wi))),
               commitWait (pushLog st1 (AllowedWaitLog p r)) p r (normCount c),
               commitWait st1 p r (normCount c),
               st1}"
    using assms(3) False
    unfolding request_def Let_def st1_def[symmetric]
    by (simp add: gi wi split: if_splits)
  then show ?thesis using b1 w by auto
qed

lemma addProcess_waitersBlocked:
  assumes "wf_state st" and "waitersBlocked st"
  shows "waitersBlocked (fst (addProcess st name))"
proof (cases "name = [] \<or> getProcess st name \<noteq> None")
  case True
  then show ?thesis using assms by (auto simp: addProcess_def)
next
  case False
  then have n: "name \<notin> pnames st" using getProcess_iff(1)[of st name] by auto
  have "\<not> hasEntry st name"
  proof
    assume "hasEntry st name"
    then obtain r q e where "(r, q) \<in> set (waitingRequests st)" "e \<in> set q" "process e = name"
      by (auto simp: hasEntry_iff)
    with assms(1) have "name \<in> pnames st" unfolding wf_state_def queues_ok_def by blast
    with n show False by simp
  qed
  then show ?thesis
    using False assms(2)
    by (auto simp: addProcess_def waitersBlocked_def hasEntry_def newProcess_def)
qed

lemma addResource_waitersBlocked:
  "waitersBlocked st \<Longrightarrow> waitersBlocked (fst (addResource st name instances))"
proof -
  assume b: "waitersBlocked st"
  have "waitersBlocked (st\<lparr>resources := resources st @ [newResource name instances]\<rparr>)
      = waitersBlocked st"
    by (rule waitersBlocked_same) simp_all
  with b show ?thesis by (simp add: addResource_def)
qed

lemma stepForward_waitersBlocked:
  "wf_state st \<Longrightarrow> stepForward st b = Some st' \<Longrightarrow> waitersBlocked st'"
  using stepForward_form[of st b] by (auto intro: waitersBlocked_recompute wf_queues)

lemma perform_waitersBlocked:
  assumes "wf_state st" and "waitersBlocked st" and "keepsStates x" and "perform x st = Some st'"
  shows "waitersBlocked st'"
proof (cases x)
  case (Request p r c e)
  with assms(4) obtain res where "request st p r c e = Some (st', res)" by auto
  from request_waitersBlocked[OF assms(1,2) this] show ?thesis .
next
  case (StepForward b)
  with assms(1,4) show ?thesis by (auto intro: stepForward_waitersBlocked)
next
  case (AddProcess n)
  with assms show ?thesis by (auto simp: addProcess_waitersBlocked)
next
  case (AddResource n i)
  with assms show ?thesis by (auto simp: addResource_waitersBlocked)
qed (use assms in \<open>auto simp: keepsStates_def enqueueEvent_def clearEvents_def\<close>)

lemma run_waitersBlocked:
  "wf_state st \<Longrightarrow> waitersBlocked st \<Longrightarrow> list_all keepsStates xs \<Longrightarrow> run xs st = Some st' \<Longrightarrow>
   waitersBlocked st'"
proof (induction xs arbitrary: st)
  case Nil
  then show ?case by simp
next
  case (Cons x xs)
  from perform_wf[OF Cons.prems(1), of x] obtain st1 where
    p: "perform x st = Some st1" "wf_state st1" by blast
  have b: "waitersBlocked st1"
    using perform_waitersBlocked[OF Cons.prems(1,2) _ p(1)] Cons.prems(3) by simp
  from Cons.IH[OF p(2) b] Cons.prems(3,4) p(1) show ?case by simp
qed

lemma run_append:
  "run (xs @ ys) st = (case run xs st of None \<Rightarrow> None | Some st1 \<Rightarrow> run ys st1)"
  by (induction xs arbitrary: st) (auto split: option.splits)

lemma run_ends_with_step:
  assumes "wf_state st" and "run (xs @ [StepForward b]) st = Some st'"
  shows "waitersBlocked st' \<and> wf_state st'"
proof -
  from run_wf[OF assms(1), of xs] obtain st1 where
    r: "run xs st = Some st1" "wf_state st1" by blast
  from assms(2) r(1) have s: "stepForward st1 b = Some st'"
    by (simp add: run_append split: option.splits)
  from stepForward_wf[OF r(2), of b] s have "wf_state st'" by auto
  with stepForward_waitersBlocked[OF r(2) s] show ?thesis by simp
qed

subsection \<open>The direct release scenario\<close>

lemma tryGrantWaiting_scanQueue:
  "tryGrantWaiting st r = scanQueue (ensureResourceMaps st r) r [] (queueOf st r) False"
  using tryGrantLoop_scanQueue[of 0 "ensureResourceMaps st r" r False]
  by (simp add: tryGrantWaiting_def)

lemma direct_pre: "run directOps newRAGState = Some directPre"
  unfolding directOps_def
  by (simp add: newRAGState_def addProcess_def addResource_def getProcess_def getResource_def
      newProcess_def newResource_def numberOr1_def normCount_def ensureResourceMaps_def
      request_def availableOf_def assignedOf_def queueOf_def commitGrant_def commitWait_def
      addAssigned_def setAssigned_def heldOf_def setQueue_def setProcessState_def pushLog_def
      directPre_def Let_def)

lemma direct_release:
  "release directPre ''P2'' ''R1'' (Some 1) = Some (directAfter, Released 1)"
proof -
  have e: "ensureResourceMaps directPre ''R1'' = directPre"
    by (simp add: ensureResourceMaps_def directPre_def)
  have h: "heldOf directPre ''R1'' ''P2'' = 1"
    by (simp add: heldOf_def assignedOf_def directPre_def)
  have n: "normCount (Some 1) = 1" by (simp add: normCount_def numberOr1_def)
  define st4 where "st4 = directPre\<lparr>assignments := [(''R1'', []), (''R2'', [(''P2'', 1)])],
      logs := logs directPre @ [ReleasedLog ''P2'' 1 ''R1'' 1]\<rparr>"
  have s3: "deleteAssigned (setAssigned directPre ''R1'' ''P2'' 0) ''R1'' ''P2''
      = directPre\<lparr>assignments := [(''R1'', []), (''R2'', [(''P2'', 1)])]\<rparr>"
    by (simp add: deleteAssigned_def setAssigned_def assignedOf_def directPre_def)
  have av: "availableOf (directPre\<lparr>assignments := [(''R1'', []), (''R2'', [(''P2'', 1)])]\<rparr>) ''R1'' = 1"
    by (simp add: availableOf_def getResource_def assignedOf_def directPre_def)
  have e4: "ensureResourceMaps st4 ''R1'' = st4"
    by (simp add: ensureResourceMaps_def st4_def directPre_def)
  have q4: "queueOf st4 ''R1'' = [\<lparr>process = ''P1'', count = 1\<rparr>]"
    by (simp add: queueOf_def st4_def directPre_def)
  have a4: "availableOf st4 ''R1'' = 1" "\<not> avoidance st4"
    by (simp_all add: availableOf_def getResource_def assignedOf_def st4_def directPre_def)
  have g: "grantEntry st4 ''R1'' [] \<lparr>process = ''P1'', count = 1\<rparr> [] = directAfter"
    unfolding grantEntry_def Let_def
    by (simp add: addAssigned_def setAssigned_def heldOf_def assignedOf_def setQueue_def
        getProcess_def setProcessState_def pushLog_def st4_def directPre_def directAfter_def)
  have t: "tryGrantWaiting st4 ''R1'' = Some (directAfter, True)"
    by (simp add: tryGrantWaiting_scanQueue e4 q4 a4 g)
  have p: "getProcess directPre ''P2'' \<noteq> None" "getResource directPre ''R1'' \<noteq> None"
    by (simp_all add: getProcess_def getResource_def directPre_def)
  show ?thesis
    unfolding release_def Let_def e h n
    using p by (simp add: s3 av pushLog_def st4_def[symmetric] t)
qed

lemma direct_reached:
  "run (directOps @ [Release ''P2'' ''R1'' (Some 1)]) newRAGState = Some directAfter"
  by (simp add: run_append direct_pre direct_release)

lemma direct_step: "stepForward directAfter True = Some directStepped"
proof -
  let ?s = "directAfter\<lparr>step := 1\<rparr>"
  have e: "ensureResourceMaps ?s ''R1'' = ?s" "ensureResourceMaps ?s ''R2'' = ?s"
    by (simp_all add: ensureResourceMaps_def directAfter_def)
  have q: "queueOf ?s ''R1'' = []" "queueOf ?s ''R2'' = [\<lparr>process = ''P1'', count = 1\<rparr>]"
    by (simp_all add: queueOf_def directAfter_def)
  have a: "availableOf ?s ''R2'' = 0"
    by (simp add: availableOf_def getResource_def assignedOf_def directAfter_def)
  have rs: "resources ?s = [\<lparr>r_name = ''R1'', r_total = 1\<rparr>, \<lparr>r_name = ''R2'', r_total = 1\<rparr>]"
    by (simp add: directAfter_def)
  have t1: "tryGrantWaiting ?s ''R1'' = Some (?s, False)"
    by (simp only: tryGrantWaiting_scanQueue e q scanQueue.simps)
  have t2: "tryGrantWaiting ?s ''R2'' = Some (?s, False)"
    by (simp only: tryGrantWaiting_scanQueue e q scanQueue.simps a) simp
  have g: "grantAll ?s (resources ?s) False = Some (?s, False)"
    unfolding rs by (simp add: t1 t2)
  have ev: "eventQueue directAfter = []" "step directAfter = 0"
    by (simp_all add: directAfter_def)
  have r: "recomputeStates (pushLog ?s NoOpStepLog) = directStepped"
    by (simp add: recomputeStates_def pushLog_def hasWaitEntry_def queueOf_def directStepped_def
        directAfter_def)
  show ?thesis
    unfolding stepForward_def Let_def using g
    by (simp add: ev r)
qed

lemma direct_stepped:
  "run ((directOps @ [Release ''P2'' ''R1'' (Some 1), StepForward True]) @ []) newRAGState
     = Some directStepped"
  using direct_reached by (simp add: run_append direct_pre direct_release direct_step)

text \<open>
  C6 as stated fails: \<open>tryGrantWaiting\<close> marks the process of a granted entry ready
  whatever else it waits for. After the direct call \<open>release('P2', 'R1')\<close> the process \<open>P1\<close>
  is stored as ready while its entry for \<open>R2\<close> is still queued.
\<close>

theorem direct_release_leaves_ready:
  "run (directOps @ [Release ''P2'' ''R1'' (Some 1)]) newRAGState = Some directAfter
   \<and> queueOf directAfter ''R2'' = [\<lparr>process = ''P1'', count = 1\<rparr>]
   \<and> hasEntry directAfter ''P1''
   \<and> getProcess directAfter ''P1'' = Some \<lparr>p_name = ''P1'', p_state = ready\<rparr>"
  using direct_reached
  by (simp add: directAfter_def queueOf_def hasEntry_def getProcess_def)

text \<open>
  C6, amended. In every state reached through the public operations with no direct call
  of \<open>release\<close> or \<open>tryGrantWaiting\<close> since the last \<open>stepForward\<close> (or since the start), every
  process with at least one wait-queue entry anywhere is stored as blocked; and a grant
  from a queue removes the granted entry itself from that queue.
\<close>

theorem waiters_blocked:
  assumes "run (xs @ ys) newRAGState = Some st"
    and "xs = [] \<or> (\<exists>b. last xs = StepForward b)"
    and "list_all keepsStates ys"
  shows "(\<forall>p \<in> set (processes st). hasEntry st (p_name p) \<longrightarrow> p_state p = blocked)
    \<and> queueOf (grantFromQueue s r i req) r = take i (queueOf s r) @ drop (Suc i) (queueOf s r)"
proof -
  from run_wf[OF wf_state_new, of xs] obtain st1 where
    r1: "run xs newRAGState = Some st1" "wf_state st1" by blast
  from assms(1) r1(1) have r2: "run ys st1 = Some st" by (simp add: run_append)
  have b1: "waitersBlocked st1"
  proof (cases "xs = []")
    case True
    with r1(1) have "st1 = newRAGState" by simp
    then show ?thesis by (simp add: waitersBlocked_def newRAGState_def)
  next
    case False
    with assms(2) obtain b where "last xs = StepForward b" by blast
    with False have "xs = butlast xs @ [StepForward b]" by (metis append_butlast_last_id)
    with r1(1) have "run (butlast xs @ [StepForward b]) newRAGState = Some st1" by simp
    from run_ends_with_step[OF wf_state_new this] show ?thesis by simp
  qed
  from run_waitersBlocked[OF r1(2) b1 assms(3) r2]
  show ?thesis by (simp add: waitersBlocked_iff queueOf_grantFromQueue)
qed

theorem waiters_blocked_witness:
  "run ((directOps @ [Release ''P2'' ''R1'' (Some 1), StepForward True]) @ []) newRAGState
     = Some directStepped
   \<and> last (directOps @ [Release ''P2'' ''R1'' (Some 1), StepForward True]) = StepForward True
   \<and> list_all keepsStates []
   \<and> hasEntry directStepped ''P1''
   \<and> \<lparr>p_name = ''P1'', p_state = blocked\<rparr> \<in> set (processes directStepped)
   \<and> p_state \<lparr>p_name = ''P1'', p_state = blocked\<rparr> = blocked"
proof -
  have l: "directOps @ [Release ''P2'' ''R1'' (Some 1), StepForward True] = []
      \<or> (\<exists>b. last (directOps @ [Release ''P2'' ''R1'' (Some 1), StepForward True]) = StepForward b)"
    by (rule disjI2, rule exI[of _ True]) simp
  have k: "list_all keepsStates []" by simp
  have h: "hasEntry directStepped ''P1''"
    by (simp add: hasEntry_def directStepped_def directAfter_def)
  have m: "\<lparr>p_name = ''P1'', p_state = blocked\<rparr> \<in> set (processes directStepped)"
    by (simp add: directStepped_def)
  from waiters_blocked[OF direct_stepped l k]
  have "\<forall>p \<in> set (processes directStepped). hasEntry directStepped (p_name p) \<longrightarrow> p_state p = blocked"
    by simp
  from bspec[OF this m] h
  have "p_state \<lparr>p_name = ''P1'', p_state = blocked\<rparr> = blocked" by simp
  with direct_stepped h m show ?thesis by simp
qed

section \<open>The speculative tests and the live state\<close>

subsection \<open>Copies point to copies only\<close>

lemma isolated_refl: "isolated (length h) h"
  by (simp add: isolated_def)

lemma isolated_getCell:
  "isolated n h \<Longrightarrow> n \<le> a \<Longrightarrow> getCell h a = Some c \<Longrightarrow> b \<in> set (cell_addrs c) \<Longrightarrow> n \<le> b"
proof -
  assume i: "isolated n h" and na: "n \<le> a" and g: "getCell h a = Some c"
    and b: "b \<in> set (cell_addrs c)"
  from g have al: "a < length h" and c: "c = h ! a"
    by (auto simp: getCell_def split: if_splits)
  have "c = drop n h ! (a - n)" using na al c by simp
  moreover have "a - n < length (drop n h)" using na al by simp
  ultimately have "c \<in> set (drop n h)" by (metis nth_mem)
  with i b show ?thesis by (auto simp: isolated_def list_all_iff)
qed

lemma isolated_alloc:
  "isolated n h \<Longrightarrow> \<forall>b \<in> set (cell_addrs c). n \<le> b \<Longrightarrow> isolated n (h @ [c])"
  by (auto simp: isolated_def list_all_iff)

lemma isolated_write:
  "isolated n h \<Longrightarrow> n \<le> a \<Longrightarrow> \<forall>b \<in> set (cell_addrs c). n \<le> b \<Longrightarrow> isolated n (h[a := c])"
proof -
  assume i: "isolated n h" and na: "n \<le> a" and c: "\<forall>b \<in> set (cell_addrs c). n \<le> b"
  have "drop n (h[a := c]) = (drop n h)[a - n := c]" using na by (simp add: drop_update_swap)
  moreover have "set ((drop n h)[a - n := c]) \<subseteq> insert c (set (drop n h))"
    by (rule set_update_subset_insert)
  ultimately show ?thesis using i c by (auto simp: isolated_def list_all_iff)
qed

lemma take_write: "n \<le> a \<Longrightarrow> take n (h[a := c]) = take n h"
  by simp

lemma isolated_length: "isolated n h \<Longrightarrow> n \<le> length h"
  by (simp add: isolated_def)

lemma copyCells_cloner:
  "flat f \<Longrightarrow> copyCells f h as = Some (h', bs) \<Longrightarrow> isolated n h
     \<Longrightarrow> isolated n h' \<and> take n h' = take n h \<and> (\<forall>b \<in> set bs. n \<le> b)"
proof (induction as arbitrary: h h' bs)
  case Nil
  then show ?case by simp
next
  case (Cons a as)
  from Cons.prems(2) obtain c c' h1 bs1 where
    c: "getCell h a = Some c" and f: "f c = Some c'"
    and r: "copyCells f (h @ [c']) as = Some (h1, bs1)"
    and e: "h' = h1" "bs = length h # bs1"
    by (auto split: Option.bind_splits)
  from f Cons.prems(1) have "cell_addrs c' = []" by (auto simp: flat_def)
  with Cons.prems(3) have i: "isolated n (h @ [c'])" by (simp add: isolated_alloc)
  from Cons.IH[OF Cons.prems(1) r i] Cons.prems(3) e show ?case
    by (auto simp: isolated_def)
qed

lemma cloneArray_cloner: "flat f \<Longrightarrow> cloner (cloneArray f)"
  unfolding cloner_def
proof (intro allI impI)
  fix n h a h' b
  assume fl: "flat f" and c: "cloneArray f h a = Some (h', b)" and i: "isolated n h"
  from c obtain as h1 bs where
    r: "copyCells f h as = Some (h1, bs)" and e: "h' = h1 @ [ArrayCell bs]" "b = length h1"
    by (auto simp: cloneArray_def split: Option.bind_splits cell.splits)
  from copyCells_cloner[OF fl r i] e show "isolated n h' \<and> take n h' = take n h \<and> n \<le> b"
    by (auto simp: isolated_alloc isolated_length dest: isolated_length)
qed

lemma cloneCounts_cloner: "cloner cloneCounts"
  by (auto simp: cloner_def cloneCounts_def isolated_alloc isolated_length
      split: Option.bind_splits cell.splits)

lemma cloneLogs_cloner: "cloner cloneLogs"
  by (auto simp: cloner_def cloneLogs_def isolated_alloc isolated_length
      split: Option.bind_splits cell.splits)

lemma cloneEntries_cloner:
  "cloner g \<Longrightarrow> cloneEntries g h kvs = Some (h', kvs') \<Longrightarrow> isolated n h
     \<Longrightarrow> isolated n h' \<and> take n h' = take n h \<and> (\<forall>b \<in> set (map snd kvs'). n \<le> b)"
proof (induction kvs arbitrary: h h' kvs')
  case Nil
  then show ?case by simp
next
  case (Cons ka kvs)
  from Cons.prems(2) obtain h1 b kvs1 where
    g: "g h (snd ka) = Some (h1, b)"
    and r: "cloneEntries g h1 kvs = Some (h', kvs1)"
    and e: "kvs' = (fst ka, b) # kvs1"
    by (auto split: Option.bind_splits)
  from g Cons.prems(1,3) have i: "isolated n h1" and t: "take n h1 = take n h" and b: "n \<le> b"
    unfolding cloner_def by blast+
  from Cons.IH[OF Cons.prems(1) r i] t b e show ?case by simp
qed

lemma cloneDict_cloner: "cloner g \<Longrightarrow> cloner (cloneDict g)"
  unfolding cloner_def [of "cloneDict g"]
proof (intro allI impI)
  fix n h a h' b
  assume g: "cloner g" and c: "cloneDict g h a = Some (h', b)" and i: "isolated n h"
  from c obtain kvs h1 kvs' where
    r: "cloneEntries g h kvs = Some (h1, kvs')" and e: "h' = h1 @ [DictCell kvs']" "b = length h1"
    by (auto simp: cloneDict_def split: Option.bind_splits cell.splits)
  from cloneEntries_cloner[OF g r i] e show "isolated n h' \<and> take n h' = take n h \<and> n \<le> b"
    by (auto simp: isolated_alloc isolated_length dest: isolated_length)
qed

lemma flat_copies:
  "flat copyProcess" "flat copyResource" "flat rebuildResource" "flat copyWaitReq" "flat copyEvent"
  by (auto simp: flat_def copyProcess_def copyResource_def rebuildResource_def copyWaitReq_def
      copyEvent_def split: cell.splits)

lemma clonerD:
  "cloner g \<Longrightarrow> g h a = Some (h', b) \<Longrightarrow> isolated n h
     \<Longrightarrow> isolated n h' \<and> take n h' = take n h \<and> n \<le> b"
  unfolding cloner_def by blast

lemma cloneState_cloner: "flat fR \<Longrightarrow> cloner (cloneState fR)"
  unfolding cloner_def [of "cloneState fR"]
proof (intro allI impI)
  fix n h a h' b
  assume fl: "flat fR" and c: "cloneState fR h a = Some (h', b)" and i: "isolated n h"
  from c obtain refs h1 ps h2 rs h3 asg h4 wr h5 evq h6 lg sc where
    g: "getCell h a = Some (StateCell refs)"
    and s1: "cloneArray copyProcess h (ref_processes refs) = Some (h1, ps)"
    and s2: "cloneArray fR h1 (ref_resources refs) = Some (h2, rs)"
    and s3: "cloneDict cloneCounts h2 (ref_assignments refs) = Some (h3, asg)"
    and s4: "cloneDict (cloneArray copyWaitReq) h3 (ref_waitingRequests refs) = Some (h4, wr)"
    and s5: "cloneArray copyEvent h4 (ref_eventQueue refs) = Some (h5, evq)"
    and s6: "cloneLogs h5 (ref_logs refs) = Some (h6, lg)"
    and e: "h' = h6 @ [StateCell sc]" "b = length h6"
    and sc: "cell_addrs (StateCell sc) = [ps, rs, asg, wr, evq, lg]"
    by (auto simp: cloneState_def split: Option.bind_splits cell.splits)
  note r1 = clonerD[OF cloneArray_cloner[OF flat_copies(1)] s1 i]
  note r2 = clonerD[OF cloneArray_cloner[OF fl] s2 conjunct1[OF r1]]
  note r3 = clonerD[OF cloneDict_cloner[OF cloneCounts_cloner] s3 conjunct1[OF r2]]
  note r4 = clonerD[OF cloneDict_cloner[OF cloneArray_cloner[OF flat_copies(4)]] s4 conjunct1[OF r3]]
  note r5 = clonerD[OF cloneArray_cloner[OF flat_copies(5)] s5 conjunct1[OF r4]]
  note r6 = clonerD[OF cloneLogs_cloner s6 conjunct1[OF r5]]
  have l1: "length h1 \<le> length h2" "length h2 \<le> length h3" "length h3 \<le> length h4"
    "length h4 \<le> length h5" "length h5 \<le> length h6"
    using clonerD[OF cloneArray_cloner[OF fl] s2 isolated_refl]
      clonerD[OF cloneDict_cloner[OF cloneCounts_cloner] s3 isolated_refl]
      clonerD[OF cloneDict_cloner[OF cloneArray_cloner[OF flat_copies(4)]] s4 isolated_refl]
      clonerD[OF cloneArray_cloner[OF flat_copies(5)] s5 isolated_refl]
      clonerD[OF cloneLogs_cloner s6 isolated_refl]
    by (simp_all add: isolated_def)
  have "isolated n h'"
    unfolding e using r1 r2 r3 r4 r5 r6 sc by (intro isolated_alloc) simp_all
  moreover have "take n h' = take n h"
    using r1 r2 r3 r4 r5 r6 by (simp add: e isolated_length)
  moreover have "n \<le> b" using r6 by (simp add: e isolated_length)
  ultimately show "isolated n h' \<and> take n h' = take n h \<and> n \<le> b" by blast
qed

lemma serialize_h_cloner: "cloner serialize_h"
  unfolding serialize_h_def [abs_def] by (rule cloneState_cloner) (rule flat_copies)

lemma from_h_cloner: "cloner from_h"
  unfolding cloner_def
proof (intro allI impI)
  fix n h a h' b
  assume c: "from_h h a = Some (h', b)" and i: "isolated n h"
  let ?h0 = "h @ [ArrayCell [], ArrayCell [], DictCell [], DictCell [], ArrayCell [], LogsCell []]"
  have i0: "isolated n ?h0" using i by (auto simp: isolated_def)
  from c have "cloneState rebuildResource ?h0 a = Some (h', b)" by (simp add: from_h_def)
  from clonerD[OF cloneState_cloner[OF flat_copies(3)] this i0] i
  show "isolated n h' \<and> take n h' = take n h \<and> n \<le> b" by (simp add: isolated_length)
qed

subsection \<open>Writes through \<open>next\<close> stay in the copy\<close>

lemma slotOf_own: "slotOf ex kvs k = OwnSlot v \<Longrightarrow> map_of kvs k = Some v"
  by (auto simp: slotOf_def split: option.splits if_splits)

lemma slotOf_not_proto: "k \<noteq> ''__proto__'' \<Longrightarrow> slotOf ex kvs k \<noteq> ThePrototype"
  by (auto simp: slotOf_def split: option.splits)

lemma slotOf_plain:
  "\<not> inherited k \<Longrightarrow> slotOf ex kvs k \<noteq> ThePrototype \<and> slotOf ex kvs k \<noteq> BuiltinMember"
  by (auto simp: slotOf_def inherited_def split: option.splits)

lemma ensureResourceMaps_h_frame:
  assumes "ensureResourceMaps_h h a r = Some h'" and i: "isolated n h" and na: "n \<le> a"
  shows "isolated n h' \<and> take n h' = take n h"
proof -
  from assms(1) obtain ex refs kvs h1 kvs' where
    c: "getCell h a = Some (StateCell refs)"
    and ca: "getCell h (ref_assignments refs) = Some (DictCell kvs)"
    and h1: "h1 = (if holdsObject (slotOf ex kvs r) then h
                   else (h @ [CountsCell []])
                          [ref_assignments refs := DictCell (kvs @ [(r, length h)])])"
    and cw: "getCell h1 (ref_waitingRequests refs) = Some (DictCell kvs')"
    and h': "h' = (if holdsObject (slotOf ex kvs' r) then h1
                   else (h1 @ [ArrayCell []])
                          [ref_waitingRequests refs := DictCell (kvs' @ [(r, length h1)])])"
    by (auto simp: ensureResourceMaps_h_def split: Option.bind_splits cell.splits)
  have ra: "n \<le> ref_assignments refs" and rw: "n \<le> ref_waitingRequests refs"
    using isolated_getCell[OF i na c] by simp_all
  have ka: "\<forall>b \<in> set (map snd kvs). n \<le> b"
    using isolated_getCell[OF i ra ca] by simp
  have nl: "n \<le> length h" using i by (rule isolated_length)
  have i1: "isolated n h1 \<and> take n h1 = take n h"
    unfolding h1 using i ra ka nl
    by (auto intro!: isolated_write isolated_alloc)
  then have nl1: "n \<le> length h1" by (simp add: isolated_length)
  have kw: "\<forall>b \<in> set (map snd kvs'). n \<le> b"
    using isolated_getCell[OF conjunct1[OF i1] rw cw] by simp
  show ?thesis
    unfolding h' using i1 rw kw nl1
    by (auto intro!: isolated_write isolated_alloc)
qed

lemma ensureEach_frame:
  "ensureEach h a ns = Some (h', raised) \<Longrightarrow> isolated n h \<Longrightarrow> n \<le> a
     \<Longrightarrow> isolated n h' \<and> take n h' = take n h"
proof (induction ns arbitrary: h)
  case Nil
  then show ?case by simp
next
  case (Cons x ns)
  from Cons.prems(1) obtain h1 own where
    e: "ensureResourceMaps_h h a x = Some h1"
    and r: "(if own then ensureEach h1 a ns else Some (h1, True)) = Some (h', raised)"
    by (auto split: Option.bind_splits)
  note f = ensureResourceMaps_h_frame[OF e Cons.prems(2,3)]
  show ?case
  proof (cases own)
    case True
    with r have "ensureEach h1 a ns = Some (h', raised)" by simp
    from Cons.IH[OF this conjunct1[OF f] Cons.prems(3)] f show ?thesis by simp
  next
    case False
    with r f show ?thesis by simp
  qed
qed

lemma pushWait_h_frame:
  assumes "pushWait_h h a r p c = Some (Done h')" and i: "isolated n h" and na: "n \<le> a"
  shows "isolated n h' \<and> take n h' = take n h"
proof -
  from assms(1) obtain ex refs kvs qa es where
    c: "getCell h a = Some (StateCell refs)"
    and cw: "getCell h (ref_waitingRequests refs) = Some (DictCell kvs)"
    and q: "slotOf ex kvs r = OwnSlot qa"
    and cq: "getCell h qa = Some (ArrayCell es)"
    and h': "h' = (h @ [WaitReqCell p c])[qa := ArrayCell (es @ [length h])]"
    by (auto simp: pushWait_h_def split: Option.bind_splits cell.splits slot.splits)
  have rw: "n \<le> ref_waitingRequests refs"
    using isolated_getCell[OF i na c] by simp
  from q have "map_of kvs r = Some qa" by (rule slotOf_own)
  then have "qa \<in> set (map snd kvs)" by (auto dest: map_of_SomeD intro: rev_image_eqI)
  then have nq: "n \<le> qa" using isolated_getCell[OF i rw cw] by simp
  have es: "\<forall>b \<in> set es. n \<le> b" using isolated_getCell[OF i nq cq] by simp
  have nl: "n \<le> length h" using i by (rule isolated_length)
  show ?thesis
    unfolding h' using i nq es nl by (auto intro!: isolated_write isolated_alloc)
qed

lemma markFirst_h_frame:
  "markFirst_h h name s as = Some h' \<Longrightarrow> isolated n h \<Longrightarrow> \<forall>b \<in> set as. n \<le> b
     \<Longrightarrow> isolated n h' \<and> take n h' = take n h"
  by (induction as) (auto split: Option.bind_splits cell.splits if_splits intro!: isolated_write)

lemma markBlocked_h_frame:
  assumes "markBlocked_h h a p = Some h'" and i: "isolated n h" and na: "n \<le> a"
  shows "isolated n h' \<and> take n h' = take n h"
proof -
  from assms(1) obtain refs ps where
    c: "getCell h a = Some (StateCell refs)"
    and cp: "getCell h (ref_processes refs) = Some (ArrayCell ps)"
    and m: "markFirst_h h p blocked ps = Some h'"
    by (auto simp: markBlocked_h_def split: Option.bind_splits cell.splits)
  have rp: "n \<le> ref_processes refs"
    using isolated_getCell[OF i na c] by simp
  have "\<forall>b \<in> set ps. n \<le> b" using isolated_getCell[OF i rp cp] by simp
  from markFirst_h_frame[OF m i this] show ?thesis .
qed

text \<open>
  The count goes to a map of the copy, unless the resource name is \<open>__proto__\<close> and the copy
  has no own map under that name.
\<close>

lemma addCount_h_frame:
  assumes "addCount_h h a r p c = Some (Done h')" and i: "isolated n h" and na: "n \<le> a"
    and r: "r \<noteq> ''__proto__''"
  shows "isolated n h' \<and> take n h' = take n h"
proof -
  from assms(1) obtain ex refs kvs where
    c: "getCell h a = Some (StateCell refs)"
    and ca: "getCell h (ref_assignments refs) = Some (DictCell kvs)"
    and run: "(case slotOf ex kvs r of
                OwnSlot ma \<Rightarrow> do {
                  cm \<leftarrow> getCell h ma;
                  case cm of
                    CountsCell m \<Rightarrow>
                      (case slotOf ex m p of
                         OwnSlot v \<Rightarrow> Some (Done (h[ma := CountsCell (AList.update p (v + c) m)]))
                       | InheritedNumber v \<Rightarrow>
                           Some (Done (h[ma := CountsCell (AList.update p (v + c) m)]))
                       | NoSlot \<Rightarrow> Some (Done (h[ma := CountsCell (AList.update p c m)]))
                       | ThePrototype \<Rightarrow> Some (Done h)
                       | BuiltinMember \<Rightarrow> None)
                  | _ \<Rightarrow> None
                }
              | ThePrototype \<Rightarrow>
                  if p = ''__proto__'' then Some (Done h)
                  else if inherited p then None
                  else Some (Done (h[0 := ProtoCell (AList.update p
                         ((case map_of ex p of None \<Rightarrow> 0 | Some v \<Rightarrow> v) + c) ex)]))
              | BuiltinMember \<Rightarrow> None
              | InheritedNumber v \<Rightarrow> Some TypeError
              | NoSlot \<Rightarrow> Some TypeError) = Some (Done h')"
    by (auto simp: addCount_h_def split: Option.bind_splits cell.splits)
  have np: "slotOf ex kvs r \<noteq> ThePrototype" using r by (rule slotOf_not_proto)
  from run np obtain ma cell' where
    q: "slotOf ex kvs r = OwnSlot ma" and h': "h' = h \<or> h' = h[ma := CountsCell cell']"
    by (auto split: slot.splits Option.bind_splits cell.splits)
  have ra: "n \<le> ref_assignments refs"
    using isolated_getCell[OF i na c] by simp
  from q have "map_of kvs r = Some ma" by (rule slotOf_own)
  then have "ma \<in> set (map snd kvs)" by (auto dest: map_of_SomeD intro: rev_image_eqI)
  then have nq: "n \<le> ma" using isolated_getCell[OF i ra ca] by simp
  show ?thesis
    using h' i nq by (auto intro!: isolated_write)
qed

lemma stateHasDefiniteCycle_h_frame:
  assumes "stateHasDefiniteCycle_h h a = Some (h', info)" and i: "isolated n h" and na: "n \<le> a"
  shows "isolated n h' \<and> take n h' = take n h"
proof -
  from assms(1) obtain st :: RAGState and raised where
    "ensureEach h a (map r_name (resources st)) = Some (h', raised)"
    by (auto simp: stateHasDefiniteCycle_h_def split: Option.bind_splits if_splits)
  from ensureEach_frame[OF this i na] show ?thesis .
qed

lemma addWait_h_frame:
  assumes "addWaitWouldCreateDefiniteCycle_h h a p r c = Some (h', info)"
  shows "take (length h) h' = h"
proof -
  from assms obtain h1 d h2 nx h3 w where
    s1: "serialize_h h a = Some (h1, d)"
    and s2: "from_h h1 d = Some (h2, nx)"
    and s3: "ensureResourceMaps_h h2 nx r = Some h3"
    and s4: "pushWait_h h3 nx r p (normCount c) = Some w"
    and s5: "(case w of TypeError \<Rightarrow> Some (h3, Thrown)
              | Done h4 \<Rightarrow> do { h5 \<leftarrow> markBlocked_h h4 nx p; stateHasDefiniteCycle_h h5 nx })
             = Some (h', info)"
    by (auto simp: addWaitWouldCreateDefiniteCycle_h_def split: Option.bind_splits)
  note r1 = clonerD[OF serialize_h_cloner s1 isolated_refl]
  note r2 = clonerD[OF from_h_cloner s2 conjunct1[OF r1]]
  have nx: "length h \<le> nx" using r2 by simp
  note r3 = ensureResourceMaps_h_frame[OF s3 conjunct1[OF r2] nx]
  show ?thesis
  proof (cases w)
    case TypeError
    with s5 have "h' = h3" by simp
    with r1 r2 r3 show ?thesis by simp
  next
    case (Done h4)
    with s5 obtain h5 where
      s6: "markBlocked_h h4 nx p = Some h5" and s7: "stateHasDefiniteCycle_h h5 nx = Some (h', info)"
      by (auto split: Option.bind_splits)
    note r4 = pushWait_h_frame[OF s4[unfolded Done] conjunct1[OF r3] nx]
    note r5 = markBlocked_h_frame[OF s6 conjunct1[OF r4] nx]
    note r6 = stateHasDefiniteCycle_h_frame[OF s7 conjunct1[OF r5] nx]
    show ?thesis using r1 r2 r3 r4 r5 r6 by simp
  qed
qed

lemma grant_h_frame:
  assumes "grantWouldCreateDefiniteCycle_h h a p r c = Some (h', info)" and r: "r \<noteq> ''__proto__''"
  shows "take (length h) h' = h"
proof -
  from assms(1) obtain h1 d h2 nx h3 w where
    s1: "serialize_h h a = Some (h1, d)"
    and s2: "from_h h1 d = Some (h2, nx)"
    and s3: "ensureResourceMaps_h h2 nx r = Some h3"
    and s4: "addCount_h h3 nx r p (normCount c) = Some w"
    and s5: "(case w of TypeError \<Rightarrow> Some (h3, Thrown) | Done h4 \<Rightarrow> stateHasDefiniteCycle_h h4 nx)
             = Some (h', info)"
    by (auto simp: grantWouldCreateDefiniteCycle_h_def split: Option.bind_splits)
  note r1 = clonerD[OF serialize_h_cloner s1 isolated_refl]
  note r2 = clonerD[OF from_h_cloner s2 conjunct1[OF r1]]
  have nx: "length h \<le> nx" using r2 by simp
  note r3 = ensureResourceMaps_h_frame[OF s3 conjunct1[OF r2] nx]
  show ?thesis
  proof (cases w)
    case TypeError
    with s5 have "h' = h3" by simp
    with r1 r2 r3 show ?thesis by simp
  next
    case (Done h4)
    with s5 have s6: "stateHasDefiniteCycle_h h4 nx = Some (h', info)" by simp
    note r4 = addCount_h_frame[OF s4[unfolded Done] conjunct1[OF r3] nx r]
    note r6 = stateHasDefiniteCycle_h_frame[OF s6 conjunct1[OF r4] nx]
    show ?thesis using r1 r2 r3 r4 r6 by simp
  qed
qed

subsection \<open>Reading a store that has grown\<close>

lemma getCell_prefix: "prefix h h' \<Longrightarrow> getCell h a = Some c \<Longrightarrow> getCell h' a = Some c"
  by (auto simp: getCell_def prefix_def nth_append split: if_splits)

lemma readCells_prefix:
  "prefix h h' \<Longrightarrow> readCells f h as = Some xs \<Longrightarrow> readCells f h' as = Some xs"
proof (induction as arbitrary: xs)
  case Nil
  then show ?case by (simp add: readCells_def)
next
  case (Cons a as)
  from Cons.prems(2) obtain c x ys where
    c: "getCell h a = Some c" and x: "f c = Some x"
    and r: "readCells f h as = Some ys" and e: "xs = x # ys"
    by (auto simp: readCells_def split: option.splits Option.bind_splits)
  from getCell_prefix[OF Cons.prems(1) c] x Cons.IH[OF Cons.prems(1) r] e
  show ?case by (simp add: readCells_def)
qed

lemma readArray_prefix:
  "prefix h h' \<Longrightarrow> readArray f h a = Some xs \<Longrightarrow> readArray f h' a = Some xs"
  by (auto simp: readArray_def getCell_prefix readCells_prefix
      split: Option.bind_splits cell.splits)

lemma readCounts_prefix:
  "prefix h h' \<Longrightarrow> readCounts h a = Some m \<Longrightarrow> readCounts h' a = Some m"
  by (auto simp: readCounts_def getCell_prefix split: Option.bind_splits cell.splits)

lemma readLogs_prefix:
  "prefix h h' \<Longrightarrow> readLogs h a = Some m \<Longrightarrow> readLogs h' a = Some m"
  by (auto simp: readLogs_def getCell_prefix split: Option.bind_splits cell.splits)

lemma readEntries_prefix:
  assumes g: "\<And>a x. g h a = Some x \<Longrightarrow> g h' a = Some x"
  shows "those (map (\<lambda>ka. map_option (Pair (fst ka)) (g h (snd ka))) kvs) = Some xs
    \<Longrightarrow> those (map (\<lambda>ka. map_option (Pair (fst ka)) (g h' (snd ka))) kvs) = Some xs"
proof (induction kvs arbitrary: xs)
  case Nil
  then show ?case by simp
next
  case (Cons ka kvs)
  from Cons.prems obtain x ys where
    x: "g h (snd ka) = Some x"
    and r: "those (map (\<lambda>ka. map_option (Pair (fst ka)) (g h (snd ka))) kvs) = Some ys"
    and e: "xs = (fst ka, x) # ys"
    by (auto split: option.splits)
  from g[OF x] Cons.IH[OF r] e show ?case by simp
qed

lemma readDict_prefix:
  assumes "prefix h h'" and "\<And>a x. g h a = Some x \<Longrightarrow> g h' a = Some x"
    and "readDict g h a = Some xs"
  shows "readDict g h' a = Some xs"
proof -
  from assms(3) obtain kvs where
    c: "getCell h a = Some (DictCell kvs)"
    and r: "those (map (\<lambda>ka. map_option (Pair (fst ka)) (g h (snd ka))) kvs) = Some xs"
    by (auto simp: readDict_def split: Option.bind_splits cell.splits)
  from getCell_prefix[OF assms(1) c] readEntries_prefix[of g h h', OF assms(2) r]
  show ?thesis by (simp add: readDict_def)
qed

lemma readState_prefix:
  assumes p: "prefix h h'" and r: "readState h a = Some st"
  shows "readState h' a = Some st"
proof -
  from r obtain refs ps rs asg wr evq lg where
    c: "getCell h a = Some (StateCell refs)"
    and s1: "readArray asProcess h (ref_processes refs) = Some ps"
    and s2: "readArray asResource h (ref_resources refs) = Some rs"
    and s3: "readDict readCounts h (ref_assignments refs) = Some asg"
    and s4: "readDict (readArray asWaitReq) h (ref_waitingRequests refs) = Some wr"
    and s5: "readArray asEvent h (ref_eventQueue refs) = Some evq"
    and s6: "readLogs h (ref_logs refs) = Some lg"
    and e: "st = \<lparr>processes = ps, resources = rs, assignments = asg, waitingRequests = wr,
               eventQueue = evq, step = val_step refs, logs = lg,
               avoidance = val_avoidance refs\<rparr>"
    by (auto simp: readState_def split: Option.bind_splits cell.splits)
  have t3: "readDict readCounts h' (ref_assignments refs) = Some asg"
    using p _ s3 by (rule readDict_prefix) (rule readCounts_prefix[OF p])
  have t4: "readDict (readArray asWaitReq) h' (ref_waitingRequests refs) = Some wr"
    using p _ s4 by (rule readDict_prefix) (rule readArray_prefix[OF p])
  show ?thesis
    using getCell_prefix[OF p c] readArray_prefix[OF p s1] readArray_prefix[OF p s2] t3 t4
      readArray_prefix[OF p s5] readLogs_prefix[OF p s6] e
    by (simp add: readState_def)
qed

lemma take_prefix: "take (length h) h' = h \<Longrightarrow> prefix h h'"
  by (metis take_is_prefix)

subsection \<open>Stores that hold a state\<close>

lemma okCell_iff: "okCell k h x \<longleftrightarrow> (\<exists>c. getCell h x = Some c \<and> kindOf c = k)"
  by (simp add: okCell_def split: option.splits)

lemma okArray_iff:
  "okArray k h b \<longleftrightarrow> (\<exists>as. getCell h b = Some (ArrayCell as) \<and> (\<forall>x \<in> set as. okCell k h x))"
  by (auto simp: okArray_def list_all_iff split: option.splits cell.splits)

lemma okDict_iff:
  "okDict G h b \<longleftrightarrow>
     (\<exists>kvs. getCell h b = Some (DictCell kvs) \<and> (\<forall>kv \<in> set kvs. G h (snd kv)))"
  by (auto simp: okDict_def list_all_iff split: option.splits cell.splits)

lemma those_map_Some:
  "(\<exists>ys. those (map g xs) = Some ys) \<longleftrightarrow> (\<forall>x \<in> set xs. \<exists>y. g x = Some y)"
  by (induction xs) (auto split: option.splits)

lemma as_kind:
  "(\<exists>v. asProcess c = Some v) \<longleftrightarrow> kindOf c = ProcessK"
  "(\<exists>v. asResource c = Some v) \<longleftrightarrow> kindOf c = ResourceK"
  "(\<exists>v. asWaitReq c = Some v) \<longleftrightarrow> kindOf c = WaitReqK"
  "(\<exists>v. asEvent c = Some v) \<longleftrightarrow> kindOf c = EventK"
  by (cases c; simp add: asProcess_def asResource_def asWaitReq_def asEvent_def)+

lemma readArray_ok:
  assumes "\<And>c. (\<exists>v. f c = Some v) \<longleftrightarrow> kindOf c = k"
  shows "(\<exists>xs. readArray f h b = Some xs) \<longleftrightarrow> okArray k h b"
proof -
  have r: "(\<exists>xs. readCells f h as = Some xs) \<longleftrightarrow> (\<forall>x \<in> set as. okCell k h x)" for as
    unfolding readCells_def those_map_Some okCell_iff
    by (auto simp: bind_eq_Some_conv assms[symmetric])
  show ?thesis
  proof (cases "getCell h b")
    case None
    then show ?thesis by (simp add: readArray_def okArray_iff)
  next
    case (Some c)
    then show ?thesis by (cases c) (simp_all add: readArray_def okArray_iff r)
  qed
qed

lemma readCounts_ok: "(\<exists>m. readCounts h b = Some m) \<longleftrightarrow> okCell CountsK h b"
proof (cases "getCell h b")
  case None
  then show ?thesis by (simp add: readCounts_def okCell_iff)
next
  case (Some c)
  then show ?thesis by (cases c) (simp_all add: readCounts_def okCell_iff)
qed

lemma readLogs_ok: "(\<exists>m. readLogs h b = Some m) \<longleftrightarrow> okCell LogsK h b"
proof (cases "getCell h b")
  case None
  then show ?thesis by (simp add: readLogs_def okCell_iff)
next
  case (Some c)
  then show ?thesis by (cases c) (simp_all add: readLogs_def okCell_iff)
qed

lemma readDict_ok:
  assumes "\<And>y. (\<exists>v. g h y = Some v) \<longleftrightarrow> G h y"
  shows "(\<exists>xs. readDict g h b = Some xs) \<longleftrightarrow> okDict G h b"
proof -
  have r: "(\<exists>xs. those (map (\<lambda>ka. map_option (Pair (fst ka)) (g h (snd ka))) kvs) = Some xs)
        \<longleftrightarrow> (\<forall>kv \<in> set kvs. G h (snd kv))" for kvs :: "(string \<times> addr) list"
    unfolding those_map_Some by (auto simp: assms[symmetric])
  show ?thesis
  proof (cases "getCell h b")
    case None
    then show ?thesis by (simp add: readDict_def okDict_iff)
  next
    case (Some c)
    then show ?thesis by (cases c) (simp_all add: readDict_def okDict_iff r)
  qed
qed

lemmas readers_ok =
  readArray_ok[of asProcess ProcessK, OF as_kind(1)]
  readArray_ok[of asResource ResourceK, OF as_kind(2)]
  readArray_ok[of asWaitReq WaitReqK, OF as_kind(3)]
  readArray_ok[of asEvent EventK, OF as_kind(4)]
  readCounts_ok readLogs_ok

lemma readState_readable: "(\<exists>st. readState h a = Some st) \<longleftrightarrow> readable h a"
proof -
  have d1: "(\<exists>xs. readDict readCounts h b = Some xs) \<longleftrightarrow> okDict (okCell CountsK) h b" for b
    by (rule readDict_ok) (rule readCounts_ok)
  have d2: "(\<exists>xs. readDict (readArray asWaitReq) h b = Some xs) \<longleftrightarrow> okDict (okArray WaitReqK) h b"
    for b by (rule readDict_ok) (rule readers_ok)
  show ?thesis
  proof (cases "getCell h a")
    case None
    then show ?thesis by (simp add: readState_def readable_def)
  next
    case (Some c)
    show ?thesis
    proof (cases c)
      case (StateCell refs)
      have "(\<exists>st. readState h a = Some st) \<longleftrightarrow>
        (\<exists>ps. readArray asProcess h (ref_processes refs) = Some ps)
        \<and> (\<exists>rs. readArray asResource h (ref_resources refs) = Some rs)
        \<and> (\<exists>asg. readDict readCounts h (ref_assignments refs) = Some asg)
        \<and> (\<exists>wr. readDict (readArray asWaitReq) h (ref_waitingRequests refs) = Some wr)
        \<and> (\<exists>evq. readArray asEvent h (ref_eventQueue refs) = Some evq)
        \<and> (\<exists>lg. readLogs h (ref_logs refs) = Some lg)"
        using Some StateCell by (auto simp: readState_def bind_eq_Some_conv)
      then show ?thesis
        using Some StateCell by (simp add: readable_def okRefs_def readers_ok d1 d2)
    qed (simp_all add: Some readState_def readable_def)
  qed
qed

subsection \<open>Changes that keep the shape\<close>

lemma apartRefs_iff:
  "apartRefs h refs \<longleftrightarrow>
     ref_assignments refs \<noteq> ref_waitingRequests refs
     \<and> (\<exists>kvs. getCell h (ref_waitingRequests refs) = Some (DictCell kvs)
          \<and> (\<forall>kv \<in> set kvs. snd kv \<noteq> ref_processes refs \<and> snd kv \<noteq> ref_resources refs
                \<and> snd kv \<noteq> ref_eventQueue refs))"
  by (auto simp: apartRefs_def list_all_iff split: option.splits cell.splits)

lemma getCell_length: "getCell h x = Some c \<Longrightarrow> x < length h"
  by (simp add: getCell_def split: if_splits)

lemma updD:
  "upd X h h' \<Longrightarrow> y \<notin> X \<Longrightarrow> getCell h y = Some c
     \<Longrightarrow> \<exists>c'. getCell h' y = Some c' \<and> kindOf c' = kindOf c \<and> (\<not> is_flat (kindOf c) \<longrightarrow> c' = c)"
  unfolding upd_def by blast

lemma upd_notin:
  "upd X h h' \<Longrightarrow> getCell h y = Some c \<Longrightarrow> is_flat (kindOf c) \<Longrightarrow> y \<notin> X"
  unfolding upd_def by fastforce

lemma upd_same:
  "upd X h h' \<Longrightarrow> y \<notin> X \<Longrightarrow> getCell h y = Some c \<Longrightarrow> \<not> is_flat (kindOf c)
     \<Longrightarrow> getCell h' y = Some c"
  using updD by blast

lemma upd_okCell:
  assumes u: "upd X h h'" and f: "is_flat k" and o: "okCell k h x"
  shows "okCell k h' x"
proof -
  from o obtain c where c: "getCell h x = Some c" "kindOf c = k" by (auto simp: okCell_iff)
  with u f have "x \<notin> X" by (auto dest: upd_notin)
  from updD[OF u this c(1)] c(2) show ?thesis by (auto simp: okCell_iff)
qed

lemma upd_okArray:
  assumes u: "upd X h h'" and f: "is_flat k" and b: "b \<notin> X" and o: "okArray k h b"
  shows "okArray k h' b"
proof -
  from o obtain as where
    c: "getCell h b = Some (ArrayCell as)" and e: "\<forall>x \<in> set as. okCell k h x"
    by (auto simp: okArray_iff)
  from upd_same[OF u b c] have "getCell h' b = Some (ArrayCell as)" by (simp add: is_flat_def)
  with e show ?thesis by (auto simp: okArray_iff intro: upd_okCell[OF u f])
qed

lemma upd_okDict:
  assumes u: "upd X h h'" and b: "b \<notin> X" and g: "\<And>y. G h y \<Longrightarrow> G h' y" and o: "okDict G h b"
  shows "okDict G h' b"
proof -
  from o obtain kvs where
    c: "getCell h b = Some (DictCell kvs)" and e: "\<forall>kv \<in> set kvs. G h (snd kv)"
    by (auto simp: okDict_iff)
  from upd_same[OF u b c] have "getCell h' b = Some (DictCell kvs)" by (simp add: is_flat_def)
  with e show ?thesis by (auto simp: okDict_iff intro: g)
qed

lemma flat_kinds [simp]:
  "is_flat ProcessK" "is_flat ResourceK" "is_flat WaitReqK" "is_flat EventK" "is_flat LogsK"
  "is_flat CountsK" "is_flat ProtoK" "\<not> is_flat ArrayK" "\<not> is_flat DictK" "\<not> is_flat StateK"
  by (simp_all add: is_flat_def)

text \<open>A change that writes no container.\<close>

lemma upd_empty_shaped:
  assumes u: "upd {} h h'" and s: "shapedAt h a refs"
  shows "shapedAt h' a refs"
proof -
  from s have c: "getCell h a = Some (StateCell refs)" and ok: "okRefs h refs"
    and ap: "apartRefs h refs" by (simp_all add: shapedAt_def)
  have c': "getCell h' a = Some (StateCell refs)"
    using upd_same[OF u _ c] by simp
  have q: "okArray WaitReqK h y \<Longrightarrow> okArray WaitReqK h' y" for y
    by (rule upd_okArray[OF u]) simp_all
  have n: "okCell CountsK h y \<Longrightarrow> okCell CountsK h' y" for y
    by (rule upd_okCell[OF u]) simp_all
  have ok': "okRefs h' refs"
    using ok unfolding okRefs_def
    by (auto intro: upd_okArray[OF u] upd_okCell[OF u] upd_okDict[OF u, of _ "okCell CountsK", OF _ n]
        upd_okDict[OF u, of _ "okArray WaitReqK", OF _ q])
  from ap obtain kvs where
    w: "getCell h (ref_waitingRequests refs) = Some (DictCell kvs)"
    by (auto simp: apartRefs_iff)
  from upd_same[OF u _ w] have "getCell h' (ref_waitingRequests refs) = Some (DictCell kvs)"
    by simp
  with ap w have "apartRefs h' refs" by (simp add: apartRefs_iff)
  with c' ok' show ?thesis by (simp add: shapedAt_def)
qed

lemma upd_append: "upd {} h (h @ cs)"
  by (auto simp: upd_def getCell_def nth_append split: if_splits)

lemma upd_refl: "upd {} h h"
  using upd_append[of h "[]"] by simp

lemma protoProps_ok: "(\<exists>ex. protoProps h = Some ex) \<longleftrightarrow> okCell ProtoK h 0"
proof (cases "getCell h 0")
  case None
  then show ?thesis by (simp add: protoProps_def okCell_iff)
next
  case (Some c)
  then show ?thesis by (cases c) (simp_all add: protoProps_def okCell_iff)
qed

lemma upd_proto: "upd X h h' \<Longrightarrow> okCell ProtoK h 0 \<Longrightarrow> okCell ProtoK h' 0"
  by (rule upd_okCell) simp_all

lemma upd_flat_write:
  assumes "getCell h x = Some c" and "is_flat (kindOf c)" and "kindOf c' = kindOf c"
  shows "upd {} h (h[x := c'])"
  unfolding upd_def using assms
  by (auto simp: getCell_def nth_list_update split: if_splits)

lemma upd_ptr_write:
  assumes "getCell h x = Some c" and "\<not> is_flat (kindOf c)"
  shows "upd {x} h ((h @ cs)[x := c'])"
  unfolding upd_def using assms
  by (auto simp: getCell_def nth_list_update nth_append split: if_splits)

lemma getCell_written:
  "x < length h \<Longrightarrow> getCell ((h @ cs)[x := c']) x = Some c'"
  by (simp add: getCell_def)

lemma getCell_fresh:
  "x < length h \<Longrightarrow> getCell ((h @ [c])[x := c']) (length h) = Some c"
  by (simp add: getCell_def nth_list_update nth_append)

subsection \<open>The writes of the tests succeed on a copy\<close>

lemma shapedAt_arrays:
  assumes "shapedAt h a refs"
  shows "\<exists>c. getCell h (ref_processes refs) = Some c \<and> kindOf c = ArrayK"
    and "\<exists>c. getCell h (ref_resources refs) = Some c \<and> kindOf c = ArrayK"
    and "\<exists>c. getCell h (ref_eventQueue refs) = Some c \<and> kindOf c = ArrayK"
    and "\<exists>kvs. getCell h (ref_assignments refs) = Some (DictCell kvs)"
    and "\<exists>kvs. getCell h (ref_waitingRequests refs) = Some (DictCell kvs)"
  using assms by (auto simp: shapedAt_def okRefs_def okArray_iff okDict_iff)

lemma okArray_kind: "okArray k h y \<Longrightarrow> \<exists>c. getCell h y = Some c \<and> kindOf c = ArrayK"
  by (auto simp: okArray_iff)

lemma ensure_asg:
  assumes s: "shapedAt h a refs"
    and d: "getCell h (ref_assignments refs) = Some (DictCell kvs)"
    and h': "h' = (h @ [CountsCell []])[ref_assignments refs := DictCell (kvs @ [(r, length h)])]"
  shows "shapedAt h' a refs \<and> upd {ref_assignments refs} h h'"
proof -
  let ?ra = "ref_assignments refs"
  from s have c: "getCell h a = Some (StateCell refs)" and ok: "okRefs h refs"
    and ap: "apartRefs h refs" by (simp_all add: shapedAt_def)
  have u: "upd {?ra} h h'" unfolding h' by (rule upd_ptr_write[OF d]) simp
  have l: "?ra < length h" using d by (rule getCell_length)
  have d': "getCell h' ?ra = Some (DictCell (kvs @ [(r, length h)]))"
    unfolding h' using l by (rule getCell_written)
  have n': "getCell h' (length h) = Some (CountsCell [])"
    unfolding h' using l by (rule getCell_fresh)
  have ne: "y \<noteq> ?ra" if "getCell h y = Some cy" "kindOf cy \<noteq> DictK" for y cy
    using that d by auto
  have c': "getCell h' a = Some (StateCell refs)"
    using upd_same[OF u _ c] ne[OF c] by simp
  have arr: "okArray k h y \<Longrightarrow> is_flat k \<Longrightarrow> okArray k h' y" for k y
    using upd_okArray[OF u, of k y] ne[of y] by (auto dest!: okArray_kind)
  have q: "okArray WaitReqK h y \<Longrightarrow> okArray WaitReqK h' y" for y
    using arr[of WaitReqK y] by simp
  have cnt: "okCell CountsK h y \<Longrightarrow> okCell CountsK h' y" for y
    by (rule upd_okCell[OF u]) simp_all
  have a1: "okDict (okCell CountsK) h' ?ra"
    using ok d d' n' unfolding okRefs_def
    by (auto simp: okDict_iff okCell_iff[of CountsK h' "length h"] intro: cnt)
  have rw: "ref_waitingRequests refs \<notin> {?ra}" using ap by (simp add: apartRefs_iff)
  have a2: "okDict (okArray WaitReqK) h' (ref_waitingRequests refs)"
    using ok unfolding okRefs_def by (auto intro: upd_okDict[OF u rw, of "okArray WaitReqK", OF q])
  have ok': "okRefs h' refs"
    using ok a1 a2 unfolding okRefs_def
    by (auto intro: arr upd_okCell[OF u])
  from ap obtain kw where
    w: "getCell h (ref_waitingRequests refs) = Some (DictCell kw)"
    by (auto simp: apartRefs_iff)
  from upd_same[OF u rw w] have "getCell h' (ref_waitingRequests refs) = Some (DictCell kw)"
    by simp
  with ap w have ap': "apartRefs h' refs" by (simp add: apartRefs_iff)
  from c' ok' ap' u show ?thesis by (simp add: shapedAt_def)
qed

lemma ensure_wr:
  assumes s: "shapedAt h a refs"
    and d: "getCell h (ref_waitingRequests refs) = Some (DictCell kvs)"
    and h': "h' = (h @ [ArrayCell []])[ref_waitingRequests refs := DictCell (kvs @ [(r, length h)])]"
  shows "shapedAt h' a refs \<and> upd {ref_waitingRequests refs} h h'"
proof -
  let ?rw = "ref_waitingRequests refs"
  from s have c: "getCell h a = Some (StateCell refs)" and ok: "okRefs h refs"
    and ap: "apartRefs h refs" by (simp_all add: shapedAt_def)
  have u: "upd {?rw} h h'" unfolding h' by (rule upd_ptr_write[OF d]) simp
  have l: "?rw < length h" using d by (rule getCell_length)
  have d': "getCell h' ?rw = Some (DictCell (kvs @ [(r, length h)]))"
    unfolding h' using l by (rule getCell_written)
  have n': "getCell h' (length h) = Some (ArrayCell [])"
    unfolding h' using l by (rule getCell_fresh)
  have ne: "y \<noteq> ?rw" if "getCell h y = Some cy" "kindOf cy \<noteq> DictK" for y cy
    using that d by auto
  have c': "getCell h' a = Some (StateCell refs)"
    using upd_same[OF u _ c] ne[OF c] by simp
  have arr: "okArray k h y \<Longrightarrow> is_flat k \<Longrightarrow> okArray k h' y" for k y
    using upd_okArray[OF u, of k y] ne[of y] by (auto dest!: okArray_kind)
  have cnt: "okCell CountsK h y \<Longrightarrow> okCell CountsK h' y" for y
    by (rule upd_okCell[OF u]) simp_all
  have ra: "ref_assignments refs \<notin> {?rw}" using ap by (simp add: apartRefs_iff)
  have a1: "okDict (okCell CountsK) h' (ref_assignments refs)"
    using ok unfolding okRefs_def by (auto intro: upd_okDict[OF u ra, of "okCell CountsK", OF cnt])
  have a2: "okDict (okArray WaitReqK) h' ?rw"
    using ok d d' n' unfolding okRefs_def
    by (auto simp: okDict_iff okArray_iff[of WaitReqK h' "length h"] intro: arr)
  have ok': "okRefs h' refs"
    using ok a1 a2 unfolding okRefs_def
    by (auto intro: arr upd_okCell[OF u])
  have lt: "ref_processes refs < length h" "ref_resources refs < length h"
    "ref_eventQueue refs < length h"
    using shapedAt_arrays(1-3)[OF s] by (auto dest: getCell_length)
  have ap': "apartRefs h' refs"
    using ap d d' lt by (auto simp: apartRefs_iff)
  from c' ok' ap' u show ?thesis by (simp add: shapedAt_def)
qed

lemma ensureResourceMaps_h_total:
  assumes s: "shapedAt h a refs" and pr: "okCell ProtoK h 0"
  shows "\<exists>h'. ensureResourceMaps_h h a r = Some h' \<and> shapedAt h' a refs \<and> okCell ProtoK h' 0"
proof -
  from pr obtain ex where ex: "protoProps h = Some ex" using protoProps_ok by blast
  from s have c: "getCell h a = Some (StateCell refs)" by (simp add: shapedAt_def)
  from shapedAt_arrays(4)[OF s] obtain kvs where
    d: "getCell h (ref_assignments refs) = Some (DictCell kvs)" by blast
  define h1 where "h1 = (if holdsObject (slotOf ex kvs r) then h
       else (h @ [CountsCell []])[ref_assignments refs := DictCell (kvs @ [(r, length h)])])"
  have s1: "shapedAt h1 a refs \<and> okCell ProtoK h1 0"
  proof (cases "holdsObject (slotOf ex kvs r)")
    case False
    then have "h1 = (h @ [CountsCell []])[ref_assignments refs := DictCell (kvs @ [(r, length h)])]"
      by (simp add: h1_def)
    from ensure_asg[OF s d this] pr show ?thesis by (auto intro: upd_proto)
  next
    case True
    then show ?thesis using s pr by (simp add: h1_def)
  qed
  from shapedAt_arrays(5)[OF conjunct1[OF s1]] obtain kw where
    w: "getCell h1 (ref_waitingRequests refs) = Some (DictCell kw)" by blast
  define h2 where "h2 = (if holdsObject (slotOf ex kw r) then h1
       else (h1 @ [ArrayCell []])[ref_waitingRequests refs := DictCell (kw @ [(r, length h1)])])"
  have s2: "shapedAt h2 a refs \<and> okCell ProtoK h2 0"
  proof (cases "holdsObject (slotOf ex kw r)")
    case False
    then have "h2 = (h1 @ [ArrayCell []])[ref_waitingRequests refs := DictCell (kw @ [(r, length h1)])]"
      by (simp add: h2_def)
    from ensure_wr[OF conjunct1[OF s1] w this] s1 show ?thesis by (auto intro: upd_proto)
  next
    case True
    then show ?thesis using s1 by (simp add: h2_def)
  qed
  have "ensureResourceMaps_h h a r = Some h2"
    using ex c d w by (simp add: ensureResourceMaps_h_def h1_def[symmetric] h2_def)
  with s2 show ?thesis by simp
qed

lemma ownQueue_total:
  assumes s: "shapedAt h a refs"
  shows "\<exists>own. ownQueue h a r = Some own"
proof -
  from s have c: "getCell h a = Some (StateCell refs)" by (simp add: shapedAt_def)
  from shapedAt_arrays(5)[OF s] obtain kvs where
    "getCell h (ref_waitingRequests refs) = Some (DictCell kvs)" by blast
  with c show ?thesis by (simp add: ownQueue_def)
qed

lemma ensureEach_total:
  "shapedAt h a refs \<Longrightarrow> okCell ProtoK h 0
     \<Longrightarrow> \<exists>h' raised. ensureEach h a ns = Some (h', raised) \<and> shapedAt h' a refs
           \<and> okCell ProtoK h' 0"
proof (induction ns arbitrary: h)
  case Nil
  then show ?case by auto
next
  case (Cons n ns)
  from ensureResourceMaps_h_total[OF Cons.prems, of n] obtain h1 where
    e: "ensureResourceMaps_h h a n = Some h1" and s1: "shapedAt h1 a refs"
    and p1: "okCell ProtoK h1 0" by blast
  from ownQueue_total[OF s1, of n] obtain own where o: "ownQueue h1 a n = Some own" by blast
  show ?case
  proof (cases own)
    case True
    with Cons.IH[OF s1 p1] e o show ?thesis by simp
  next
    case False
    with e o s1 p1 show ?thesis by auto
  qed
qed

lemma pushWait_h_total:
  assumes s: "shapedAt h a refs" and pr: "okCell ProtoK h 0"
  shows "\<exists>w. pushWait_h h a r p n = Some w
           \<and> (\<forall>h'. w = Done h' \<longrightarrow> shapedAt h' a refs \<and> okCell ProtoK h' 0)"
proof -
  let ?rw = "ref_waitingRequests refs"
  from pr obtain ex where ex: "protoProps h = Some ex" using protoProps_ok by blast
  from s have c: "getCell h a = Some (StateCell refs)" and ok: "okRefs h refs"
    and ap: "apartRefs h refs" by (simp_all add: shapedAt_def)
  from shapedAt_arrays(5)[OF s] obtain kvs where
    w: "getCell h ?rw = Some (DictCell kvs)" by blast
  show ?thesis
  proof (cases "slotOf ex kvs r")
    case (OwnSlot qa)
    then have m: "map_of kvs r = Some qa" by (rule slotOf_own)
    have qin: "(r, qa) \<in> set kvs" using m by (rule map_of_SomeD)
    from ok w qin have "okArray WaitReqK h qa"
      by (auto simp: okRefs_def okDict_iff)
    then obtain es where
      q: "getCell h qa = Some (ArrayCell es)" and e: "\<forall>x \<in> set es. okCell WaitReqK h x"
      by (auto simp: okArray_iff)
    define h' where "h' = (h @ [WaitReqCell p n])[qa := ArrayCell (es @ [length h])]"
    have run: "pushWait_h h a r p n = Some (Done h')"
      using ex c w OwnSlot q by (simp add: pushWait_h_def h'_def)
    have u: "upd {qa} h h'" unfolding h'_def by (rule upd_ptr_write[OF q]) simp
    have l: "qa < length h" using q by (rule getCell_length)
    have q': "getCell h' qa = Some (ArrayCell (es @ [length h]))"
      unfolding h'_def using l by (rule getCell_written)
    have n': "getCell h' (length h) = Some (WaitReqCell p n)"
      unfolding h'_def using l by (rule getCell_fresh)
    have ne: "y \<noteq> qa" if "getCell h y = Some cy" "kindOf cy \<noteq> ArrayK" for y cy
      using that q by auto
    have c': "getCell h' a = Some (StateCell refs)"
      using upd_same[OF u _ c] ne[OF c] by simp
    have cell: "okCell k h y \<Longrightarrow> is_flat k \<Longrightarrow> okCell k h' y" for k y
      by (rule upd_okCell[OF u])
    have apart: "qa \<noteq> ref_processes refs" "qa \<noteq> ref_resources refs" "qa \<noteq> ref_eventQueue refs"
      using ap w qin by (auto simp: apartRefs_iff)
    have arr: "okArray k h y \<Longrightarrow> is_flat k \<Longrightarrow> y \<noteq> qa \<Longrightarrow> okArray k h' y" for k y
      using upd_okArray[OF u, of k y] by simp
    have qq: "okArray WaitReqK h' qa"
      using q' n' e by (auto simp: okArray_iff okCell_iff[of WaitReqK h' "length h"] intro: cell)
    have que: "okArray WaitReqK h y \<Longrightarrow> okArray WaitReqK h' y" for y
      using arr[of WaitReqK y] qq by (cases "y = qa") simp_all
    have dn: "ref_assignments refs \<notin> {qa}" "?rw \<notin> {qa}"
      using shapedAt_arrays(4,5)[OF s] q by auto
    have cnt: "okCell CountsK h y \<Longrightarrow> okCell CountsK h' y" for y
      using cell[of CountsK y] by simp
    have a1: "okDict (okCell CountsK) h' (ref_assignments refs)"
      using ok unfolding okRefs_def
      by (auto intro: upd_okDict[OF u dn(1), of "okCell CountsK", OF cnt])
    have a2: "okDict (okArray WaitReqK) h' ?rw"
      using ok unfolding okRefs_def
      by (auto intro: upd_okDict[OF u dn(2), of "okArray WaitReqK", OF que])
    have ok': "okRefs h' refs"
      using ok a1 a2 apart unfolding okRefs_def by (auto intro: arr cell)
    from upd_same[OF u dn(2) w] have "getCell h' ?rw = Some (DictCell kvs)" by simp
    with ap w have ap': "apartRefs h' refs" by (simp add: apartRefs_iff)
    from run c' ok' ap' upd_proto[OF u pr] show ?thesis by (simp add: shapedAt_def)
  qed (use ex c w in \<open>simp_all add: pushWait_h_def\<close>)
qed

lemma markFirst_h_total:
  "\<forall>x \<in> set ps. okCell ProcessK h x
     \<Longrightarrow> \<exists>h'. markFirst_h h name s ps = Some h' \<and> upd {} h h'"
proof (induction ps)
  case Nil
  show ?case using upd_append[of h "[]"] by simp
next
  case (Cons x ps)
  from Cons.prems obtain c where c: "getCell h x = Some c" "kindOf c = ProcessK"
    by (auto simp: okCell_iff)
  then obtain n t where p: "c = ProcessCell n t" by (cases c) simp_all
  show ?case
  proof (cases "n = name")
    case True
    have "upd {} h (h[x := ProcessCell n s])"
      by (rule upd_flat_write[OF c(1)]) (simp_all add: p)
    with c p True show ?thesis by simp
  next
    case False
    with Cons c p show ?thesis by simp
  qed
qed

lemma markBlocked_h_total:
  assumes s: "shapedAt h a refs"
  shows "\<exists>h'. markBlocked_h h a p = Some h' \<and> shapedAt h' a refs \<and> upd {} h h'"
proof -
  from s have c: "getCell h a = Some (StateCell refs)"
    and "okArray ProcessK h (ref_processes refs)" by (simp_all add: shapedAt_def okRefs_def)
  then obtain ps where
    a: "getCell h (ref_processes refs) = Some (ArrayCell ps)"
    and e: "\<forall>x \<in> set ps. okCell ProcessK h x"
    by (auto simp: okArray_iff)
  from markFirst_h_total[OF e, of p blocked] obtain h' where
    m: "markFirst_h h p blocked ps = Some h'" and u: "upd {} h h'" by blast
  have "markBlocked_h h a p = Some h'" using c a m by (simp add: markBlocked_h_def)
  with upd_empty_shaped[OF u s] u show ?thesis by simp
qed

lemma addCount_h_total:
  assumes s: "shapedAt h a refs" and pr: "okCell ProtoK h 0"
    and r: "\<not> inherited r" and p: "\<not> inherited p"
  shows "\<exists>w. addCount_h h a r p n = Some w
           \<and> (\<forall>h'. w = Done h' \<longrightarrow> shapedAt h' a refs \<and> okCell ProtoK h' 0)"
proof -
  from pr obtain ex where ex: "protoProps h = Some ex" using protoProps_ok by blast
  from s have c: "getCell h a = Some (StateCell refs)" and ok: "okRefs h refs"
    by (simp_all add: shapedAt_def)
  from shapedAt_arrays(4)[OF s] obtain kvs where
    d: "getCell h (ref_assignments refs) = Some (DictCell kvs)" by blast
  note nr = slotOf_plain[OF r, of ex kvs]
  show ?thesis
  proof (cases "slotOf ex kvs r")
    case (OwnSlot ma)
    then have m: "map_of kvs r = Some ma" by (rule slotOf_own)
    have "(r, ma) \<in> set kvs" using m by (rule map_of_SomeD)
    with ok d have "okCell CountsK h ma" by (auto simp: okRefs_def okDict_iff)
    then obtain cm where cm: "getCell h ma = Some cm" "kindOf cm = CountsK"
      by (auto simp: okCell_iff)
    then obtain mm where mm: "cm = CountsCell mm" by (cases cm) simp_all
    have wr: "shapedAt (h[ma := CountsCell x]) a refs \<and> okCell ProtoK (h[ma := CountsCell x]) 0"
      for x
    proof -
      have "upd {} h (h[ma := CountsCell x])"
        by (rule upd_flat_write[OF cm(1)]) (simp_all add: mm)
      from upd_empty_shaped[OF this s] upd_proto[OF this pr] show ?thesis by simp
    qed
    note np = slotOf_plain[OF p, of ex mm]
    show ?thesis
      using ex c d OwnSlot cm(1) mm np s pr wr
      by (cases "slotOf ex mm p") (simp_all add: addCount_h_def)
  qed (use ex c d nr in \<open>simp_all add: addCount_h_def\<close>)
qed

lemma shapedAt_readable: "shapedAt h a refs \<Longrightarrow> \<exists>st. readState h a = Some st"
  by (simp add: readState_readable readable_def shapedAt_def)

lemma stateHasDefiniteCycle_h_total:
  assumes s: "shapedAt h a refs" and pr: "okCell ProtoK h 0"
  shows "\<exists>h' outcome. stateHasDefiniteCycle_h h a = Some (h', outcome)"
proof -
  from shapedAt_readable[OF s] obtain st where r: "readState h a = Some st" by blast
  from ensureEach_total[OF s pr] obtain h1 raised where
    e: "ensureEach h a (map r_name (resources st)) = Some (h1, raised)"
    and s1: "shapedAt h1 a refs" and p1: "okCell ProtoK h1 0"
    by blast
  from p1 obtain ex where ex: "protoProps h1 = Some ex" using protoProps_ok by blast
  from shapedAt_readable[OF s1] obtain st1 where r1: "readState h1 a = Some st1" by blast
  from r e ex r1 show ?thesis by (simp add: stateHasDefiniteCycle_h_def)
qed

subsection \<open>The copy of a readable state is made and well-formed\<close>

lemma copiers:
  "copier ProcessK copyProcess" "copier ResourceK copyResource" "copier ResourceK rebuildResource"
  "copier WaitReqK copyWaitReq" "copier EventK copyEvent"
  unfolding copier_def
  by (intro allI impI, case_tac c,
      simp_all add: copyProcess_def copyResource_def rebuildResource_def copyWaitReq_def
        copyEvent_def)+

lemma okCell_prefix: "prefix h h' \<Longrightarrow> okCell k h x \<Longrightarrow> okCell k h' x"
  by (auto simp: okCell_iff dest: getCell_prefix)

lemma okArray_prefix: "prefix h h' \<Longrightarrow> okArray k h x \<Longrightarrow> okArray k h' x"
  by (auto simp: okArray_iff dest: getCell_prefix okCell_prefix)

lemma okDict_prefix: "grows G \<Longrightarrow> prefix h h' \<Longrightarrow> okDict G h x \<Longrightarrow> okDict G h' x"
  unfolding okDict_iff grows_def by (blast dest: getCell_prefix)

lemma grows_ok: "grows (okCell k)" "grows (okArray k)"
  by (auto simp: grows_def dest: okCell_prefix okArray_prefix)

lemma getCell_last: "getCell (h @ [c]) (length h) = Some c"
  by (simp add: getCell_def)

lemma copyCells_total:
  assumes cp: "copier k cp"
  shows "\<forall>x \<in> set as. okCell k h x
    \<Longrightarrow> \<exists>h' bs. copyCells cp h as = Some (h', bs) \<and> prefix h h' \<and> (\<forall>y \<in> set bs. okCell k h' y)"
proof (induction as arbitrary: h)
  case Nil
  then show ?case by simp
next
  case (Cons x as)
  from Cons.prems obtain c where c: "getCell h x = Some c" "kindOf c = k"
    by (auto simp: okCell_iff)
  with cp obtain c' where c': "cp c = Some c'" "kindOf c' = k"
    by (auto simp: copier_def)
  have "\<forall>x \<in> set as. okCell k (h @ [c']) x"
    using Cons.prems by (auto intro: okCell_prefix[of h])
  from Cons.IH[OF this] obtain h' bs where
    r: "copyCells cp (h @ [c']) as = Some (h', bs)" and p: "prefix (h @ [c']) h'"
    and o: "\<forall>y \<in> set bs. okCell k h' y" by blast
  have run: "copyCells cp h (x # as) = Some (h', length h # bs)"
    using c c' r by simp
  have p': "prefix h h'" using p by (rule append_prefixD)
  have "okCell k (h @ [c']) (length h)" using c'(2) by (simp add: okCell_iff getCell_last)
  with p have "okCell k h' (length h)" by (rule okCell_prefix)
  with run p' o show ?case by simp
qed

lemma cloneArray_clones:
  assumes cp: "copier k cp"
  shows "clones (okArray k) (cloneArray cp)"
  unfolding clones_def
proof (intro allI impI)
  fix h b
  assume "okArray k h b"
  then obtain as where
    a: "getCell h b = Some (ArrayCell as)" and e: "\<forall>x \<in> set as. okCell k h x"
    by (auto simp: okArray_iff)
  from copyCells_total[OF cp e] obtain h1 bs where
    r: "copyCells cp h as = Some (h1, bs)" and p: "prefix h h1"
    and o: "\<forall>y \<in> set bs. okCell k h1 y" by blast
  have run: "cloneArray cp h b = Some (h1 @ [ArrayCell bs], length h1)"
    using a r by (simp add: cloneArray_def)
  have p': "prefix h (h1 @ [ArrayCell bs])" using p by (simp add: prefix_def) auto
  have "okArray k (h1 @ [ArrayCell bs]) (length h1)"
    using o by (auto simp: okArray_iff getCell_last intro: okCell_prefix[of h1])
  with run p' prefix_length_le[OF p]
  show "\<exists>h' y'. cloneArray cp h b = Some (h', y') \<and> prefix h h' \<and> okArray k h' y'
      \<and> length h \<le> y' \<and> y' < length h'" by simp
qed

lemma cloneCounts_clones: "clones (okCell CountsK) cloneCounts"
  unfolding clones_def
proof (intro allI impI)
  fix h b
  assume "okCell CountsK h b"
  then obtain c where c: "getCell h b = Some c" "kindOf c = CountsK" by (auto simp: okCell_iff)
  then obtain m where "c = CountsCell m" by (cases c) simp_all
  with c show "\<exists>h' y'. cloneCounts h b = Some (h', y') \<and> prefix h h' \<and> okCell CountsK h' y'
      \<and> length h \<le> y' \<and> y' < length h'"
    by (simp add: cloneCounts_def okCell_iff getCell_last)
qed

lemma cloneLogs_clones: "clones (okCell LogsK) cloneLogs"
  unfolding clones_def
proof (intro allI impI)
  fix h b
  assume "okCell LogsK h b"
  then obtain c where c: "getCell h b = Some c" "kindOf c = LogsK" by (auto simp: okCell_iff)
  then obtain m where "c = LogsCell m" by (cases c) simp_all
  with c show "\<exists>h' y'. cloneLogs h b = Some (h', y') \<and> prefix h h' \<and> okCell LogsK h' y'
      \<and> length h \<le> y' \<and> y' < length h'"
    by (simp add: cloneLogs_def okCell_iff getCell_last)
qed

lemma clonesD:
  "clones G g \<Longrightarrow> G h y
     \<Longrightarrow> \<exists>h' y'. g h y = Some (h', y') \<and> prefix h h' \<and> G h' y' \<and> length h \<le> y' \<and> y' < length h'"
  unfolding clones_def by blast

lemma growsD: "grows G \<Longrightarrow> prefix h h' \<Longrightarrow> G h y \<Longrightarrow> G h' y"
  unfolding grows_def by blast

lemma cloneEntries_total:
  assumes g: "clones G g" and m: "grows G"
  shows "\<forall>kv \<in> set kvs. G h (snd kv)
    \<Longrightarrow> \<exists>h' kvs'. cloneEntries g h kvs = Some (h', kvs') \<and> prefix h h'
          \<and> (\<forall>kv \<in> set kvs'. G h' (snd kv) \<and> length h \<le> snd kv \<and> snd kv < length h')"
proof (induction kvs arbitrary: h)
  case Nil
  then show ?case by simp
next
  case (Cons ka kvs)
  from Cons.prems have "G h (snd ka)" by simp
  from clonesD[OF g this] obtain h1 b where
    s: "g h (snd ka) = Some (h1, b)" and p: "prefix h h1" and o: "G h1 b"
    and l: "length h \<le> b" "b < length h1" by blast
  have "\<forall>kv \<in> set kvs. G h1 (snd kv)"
    using Cons.prems by (auto intro: growsD[OF m p])
  from Cons.IH[OF this] obtain h2 kvs1 where
    r: "cloneEntries g h1 kvs = Some (h2, kvs1)" and p2: "prefix h1 h2"
    and o2: "\<forall>kv \<in> set kvs1. G h2 (snd kv) \<and> length h1 \<le> snd kv \<and> snd kv < length h2"
    by blast
  have run: "cloneEntries g h (ka # kvs) = Some (h2, (fst ka, b) # kvs1)"
    using s r by simp
  have p': "prefix h h2" using p p2 by (rule prefix_order.trans)
  have "G h2 b" using o by (rule growsD[OF m p2])
  with run p' o2 l prefix_length_le[OF p] prefix_length_le[OF p2] show ?case by auto
qed

lemma cloneDict_total:
  assumes g: "clones G g" and m: "grows G" and o: "okDict G h b"
  shows "\<exists>h' b' kvs'. cloneDict g h b = Some (h', b') \<and> prefix h h'
          \<and> getCell h' b' = Some (DictCell kvs')
          \<and> (\<forall>kv \<in> set kvs'. G h' (snd kv) \<and> length h \<le> snd kv \<and> snd kv < b')
          \<and> length h \<le> b' \<and> b' < length h'"
proof -
  from o obtain kvs where
    d: "getCell h b = Some (DictCell kvs)" and e: "\<forall>kv \<in> set kvs. G h (snd kv)"
    by (auto simp: okDict_iff)
  from cloneEntries_total[OF g m e] obtain h1 kvs' where
    r: "cloneEntries g h kvs = Some (h1, kvs')" and p: "prefix h h1"
    and o1: "\<forall>kv \<in> set kvs'. G h1 (snd kv) \<and> length h \<le> snd kv \<and> snd kv < length h1"
    by blast
  have run: "cloneDict g h b = Some (h1 @ [DictCell kvs'], length h1)"
    using d r by (simp add: cloneDict_def)
  have p1: "prefix h1 (h1 @ [DictCell kvs'])" by simp
  have p': "prefix h (h1 @ [DictCell kvs'])" using p p1 by (rule prefix_order.trans)
  have "\<forall>kv \<in> set kvs'. G (h1 @ [DictCell kvs']) (snd kv)"
    using o1 by (auto intro: growsD[OF m p1])
  with run p' o1 prefix_length_le[OF p] show ?thesis by (simp add: getCell_last)
qed

lemma cloneState_total:
  assumes fR: "copier ResourceK fR" and c: "getCell h a = Some (StateCell refs)"
    and ok: "okRefs h refs"
  shows "\<exists>h' b refs'. cloneState fR h a = Some (h', b) \<and> prefix h h' \<and> shapedAt h' b refs'"
proof -
  note gq = grows_ok(2)[of WaitReqK]
  note gc = grows_ok(1)[of CountsK]
  from ok have o1: "okArray ProcessK h (ref_processes refs)" by (simp add: okRefs_def)
  from clonesD[OF cloneArray_clones[OF copiers(1)] o1] obtain h1 ps where
    s1: "cloneArray copyProcess h (ref_processes refs) = Some (h1, ps)"
    and p1: "prefix h h1" and q1: "okArray ProcessK h1 ps" and l1: "ps < length h1" by blast
  from ok p1 have o2: "okArray ResourceK h1 (ref_resources refs)"
    by (auto simp: okRefs_def intro: okArray_prefix)
  from clonesD[OF cloneArray_clones[OF fR] o2] obtain h2 rs where
    s2: "cloneArray fR h1 (ref_resources refs) = Some (h2, rs)"
    and p2: "prefix h1 h2" and q2: "okArray ResourceK h2 rs" and l2: "rs < length h2" by blast
  have p02: "prefix h h2" using p1 p2 by (rule prefix_order.trans)
  from ok p02 have o3: "okDict (okCell CountsK) h2 (ref_assignments refs)"
    by (auto simp: okRefs_def intro: okDict_prefix[OF gc])
  from cloneDict_total[OF cloneCounts_clones gc o3] obtain h3 asg kv3 where
    s3: "cloneDict cloneCounts h2 (ref_assignments refs) = Some (h3, asg)"
    and p3: "prefix h2 h3" and d3: "getCell h3 asg = Some (DictCell kv3)"
    and e3: "\<forall>kv \<in> set kv3. okCell CountsK h3 (snd kv)"
    and l3: "asg < length h3" by blast
  have p03: "prefix h h3" using p02 p3 by (rule prefix_order.trans)
  from ok p03 have o4: "okDict (okArray WaitReqK) h3 (ref_waitingRequests refs)"
    by (auto simp: okRefs_def intro: okDict_prefix[OF gq])
  from cloneDict_total[OF cloneArray_clones[OF copiers(4)] gq o4] obtain h4 wr kv4 where
    s4: "cloneDict (cloneArray copyWaitReq) h3 (ref_waitingRequests refs) = Some (h4, wr)"
    and p4: "prefix h3 h4" and d4: "getCell h4 wr = Some (DictCell kv4)"
    and e4: "\<forall>kv \<in> set kv4. okArray WaitReqK h4 (snd kv) \<and> length h3 \<le> snd kv \<and> snd kv < wr"
    and l4: "length h3 \<le> wr" "wr < length h4" by blast
  have p04: "prefix h h4" using p03 p4 by (rule prefix_order.trans)
  from ok p04 have o5: "okArray EventK h4 (ref_eventQueue refs)"
    by (auto simp: okRefs_def intro: okArray_prefix)
  from clonesD[OF cloneArray_clones[OF copiers(5)] o5] obtain h5 evq where
    s5: "cloneArray copyEvent h4 (ref_eventQueue refs) = Some (h5, evq)"
    and p5: "prefix h4 h5" and q5: "okArray EventK h5 evq" and l5: "length h4 \<le> evq" by blast
  have p05: "prefix h h5" using p04 p5 by (rule prefix_order.trans)
  from ok p05 have o6: "okCell LogsK h5 (ref_logs refs)"
    by (auto simp: okRefs_def intro: okCell_prefix)
  from clonesD[OF cloneLogs_clones o6] obtain h6 lg where
    s6: "cloneLogs h5 (ref_logs refs) = Some (h6, lg)"
    and p6: "prefix h5 h6" and q6: "okCell LogsK h6 lg" by blast
  define refs' where "refs' = \<lparr>ref_processes = ps, ref_resources = rs, ref_assignments = asg,
                       ref_waitingRequests = wr, ref_eventQueue = evq, val_step = val_step refs,
                       ref_logs = lg, val_avoidance = val_avoidance refs\<rparr>"
  define h' where "h' = h6 @ [StateCell refs']"
  have run: "cloneState fR h a = Some (h', length h6)"
    using c s1 s2 s3 s4 s5 s6 by (simp add: cloneState_def h'_def refs'_def)
  have p7: "prefix h6 h'" by (simp add: h'_def)
  have t6: "prefix h5 h'" using p6 p7 by (rule prefix_order.trans)
  have t5: "prefix h4 h'" using p5 t6 by (rule prefix_order.trans)
  have t4: "prefix h3 h'" using p4 t5 by (rule prefix_order.trans)
  have t3: "prefix h2 h'" using p3 t4 by (rule prefix_order.trans)
  have t2: "prefix h1 h'" using p2 t3 by (rule prefix_order.trans)
  have t1: "prefix h h'" using p1 t2 by (rule prefix_order.trans)
  have a3: "okDict (okCell CountsK) h' asg"
    using getCell_prefix[OF t4 d3] e3 by (auto simp: okDict_iff intro: okCell_prefix[OF t4])
  have a4: "okDict (okArray WaitReqK) h' wr"
    using getCell_prefix[OF t5 d4] e4 by (auto simp: okDict_iff intro: okArray_prefix[OF t5])
  have ok': "okRefs h' refs'"
    using okArray_prefix[OF t2 q1] okArray_prefix[OF t3 q2] a3 a4 okArray_prefix[OF t6 q5]
      okCell_prefix[OF p7 q6]
    by (simp add: okRefs_def refs'_def)
  have len: "length h1 \<le> length h2" "length h2 \<le> length h3"
    using prefix_length_le[OF p2] prefix_length_le[OF p3] by simp_all
  have ap': "apartRefs h' refs'"
    using getCell_prefix[OF t5 d4] e4 l1 l2 l3 l4 l5 len
    by (fastforce simp: apartRefs_iff refs'_def)
  have "getCell h' (length h6) = Some (StateCell refs')" by (simp add: h'_def getCell_last)
  with ok' ap' have "shapedAt h' (length h6) refs'" by (simp add: shapedAt_def)
  with run t1 show ?thesis by blast
qed

lemma readable_cloneState:
  assumes fR: "copier ResourceK fR" and r: "readState h a = Some st"
  shows "\<exists>h' b refs'. cloneState fR h a = Some (h', b) \<and> prefix h h' \<and> shapedAt h' b refs'"
proof -
  from r have "readable h a" using readState_readable by blast
  then obtain refs where "getCell h a = Some (StateCell refs)" "okRefs h refs"
    by (auto simp: readable_def split: option.splits cell.splits)
  then show ?thesis by (rule cloneState_total[OF fR])
qed

lemma speculative_copy:
  assumes r: "readState h a = Some st" and pr: "okCell ProtoK h 0"
  shows "\<exists>h1 d h2 nx refs. serialize_h h a = Some (h1, d) \<and> from_h h1 d = Some (h2, nx)
          \<and> shapedAt h2 nx refs \<and> okCell ProtoK h2 0"
proof -
  from readable_cloneState[OF copiers(2) r] obtain h1 d refs1 where
    s1: "serialize_h h a = Some (h1, d)" and p1: "prefix h h1" and sh1: "shapedAt h1 d refs1"
    by (auto simp: serialize_h_def)
  let ?h0 = "h1 @ [ArrayCell [], ArrayCell [], DictCell [], DictCell [], ArrayCell [], LogsCell []]"
  have p0: "prefix h1 ?h0" by simp
  from shapedAt_readable[OF sh1] obtain st1 where "readState h1 d = Some st1" by blast
  then have "readState ?h0 d = Some st1" by (rule readState_prefix[rotated]) simp
  from readable_cloneState[OF copiers(3) this] obtain h2 nx refs where
    s2: "from_h h1 d = Some (h2, nx)" and p2: "prefix ?h0 h2" and sh2: "shapedAt h2 nx refs"
    by (auto simp: from_h_def)
  have "prefix h h2" using p1 p0 p2 by (meson prefix_order.trans)
  from okCell_prefix[OF this pr] s1 s2 sh2 show ?thesis by blast
qed

lemma addWait_h_total:
  assumes r: "readState h a = Some st" and pr: "okCell ProtoK h 0"
  shows "\<exists>h' outcome. addWaitWouldCreateDefiniteCycle_h h a p rn c = Some (h', outcome)"
proof -
  from speculative_copy[OF r pr] obtain h1 d h2 nx refs where
    s1: "serialize_h h a = Some (h1, d)" and s2: "from_h h1 d = Some (h2, nx)"
    and sh2: "shapedAt h2 nx refs" and p2: "okCell ProtoK h2 0" by blast
  from ensureResourceMaps_h_total[OF sh2 p2, of rn] obtain h3 where
    s3: "ensureResourceMaps_h h2 nx rn = Some h3" and sh3: "shapedAt h3 nx refs"
    and p3: "okCell ProtoK h3 0" by blast
  from pushWait_h_total[OF sh3 p3, of rn p "normCount c"] obtain w where
    s4: "pushWait_h h3 nx rn p (normCount c) = Some w"
    and sh4: "\<forall>h'. w = Done h' \<longrightarrow> shapedAt h' nx refs \<and> okCell ProtoK h' 0" by blast
  show ?thesis
  proof (cases w)
    case TypeError
    with s1 s2 s3 s4 show ?thesis by (simp add: addWaitWouldCreateDefiniteCycle_h_def)
  next
    case (Done h4)
    with sh4 have s: "shapedAt h4 nx refs" and p4: "okCell ProtoK h4 0" by simp_all
    from markBlocked_h_total[OF s, of p] obtain h5 where
      s5: "markBlocked_h h4 nx p = Some h5" and sh5: "shapedAt h5 nx refs"
      and u5: "upd {} h4 h5" by blast
    from stateHasDefiniteCycle_h_total[OF sh5 upd_proto[OF u5 p4]] obtain h' outcome where
      "stateHasDefiniteCycle_h h5 nx = Some (h', outcome)" by blast
    with s1 s2 s3 s4 Done s5 show ?thesis
      by (simp add: addWaitWouldCreateDefiniteCycle_h_def)
  qed
qed

lemma grant_h_total:
  assumes r: "readState h a = Some st" and pr: "okCell ProtoK h 0"
    and rn: "\<not> inherited rn" and p: "\<not> inherited p"
  shows "\<exists>h' outcome. grantWouldCreateDefiniteCycle_h h a p rn c = Some (h', outcome)"
proof -
  from speculative_copy[OF r pr] obtain h1 d h2 nx refs where
    s1: "serialize_h h a = Some (h1, d)" and s2: "from_h h1 d = Some (h2, nx)"
    and sh2: "shapedAt h2 nx refs" and p2: "okCell ProtoK h2 0" by blast
  from ensureResourceMaps_h_total[OF sh2 p2, of rn] obtain h3 where
    s3: "ensureResourceMaps_h h2 nx rn = Some h3" and sh3: "shapedAt h3 nx refs"
    and p3: "okCell ProtoK h3 0" by blast
  from addCount_h_total[OF sh3 p3 rn p, of "normCount c"] obtain w where
    s4: "addCount_h h3 nx rn p (normCount c) = Some w"
    and sh4: "\<forall>h'. w = Done h' \<longrightarrow> shapedAt h' nx refs \<and> okCell ProtoK h' 0" by blast
  show ?thesis
  proof (cases w)
    case TypeError
    with s1 s2 s3 s4 show ?thesis by (simp add: grantWouldCreateDefiniteCycle_h_def)
  next
    case (Done h4)
    with sh4 have s: "shapedAt h4 nx refs" and p4: "okCell ProtoK h4 0" by simp_all
    from stateHasDefiniteCycle_h_total[OF s p4] obtain h' outcome where
      "stateHasDefiniteCycle_h h4 nx = Some (h', outcome)" by blast
    with s1 s2 s3 s4 Done show ?thesis
      by (simp add: grantWouldCreateDefiniteCycle_h_def)
  qed
qed

text \<open>
  For a process and a resource whose names are not names of members of \<open>Object.prototype\<close>,
  the two tests return and leave every cell of the store as it was, \<open>Object.prototype\<close>
  included. The test of a wait does so for every name.
\<close>

lemma speculative_checks_frame_plain:
  assumes "readState h a = Some st" and "protoProps h = Some ex"
    and "\<not> inherited resName" and "\<not> inherited procName"
  shows "(\<exists>h' outcome. grantWouldCreateDefiniteCycle_h h a procName resName cnt = Some (h', outcome)
            \<and> prefix h h' \<and> readState h' a = Some st)
       \<and> (\<exists>h' outcome. addWaitWouldCreateDefiniteCycle_h h a procName resName cnt
              = Some (h', outcome)
            \<and> prefix h h' \<and> readState h' a = Some st)"
proof -
  have pr: "okCell ProtoK h 0" using assms(2) protoProps_ok by blast
  have np: "resName \<noteq> ''__proto__''" using assms(3) by (auto simp: inherited_def)
  from grant_h_total[OF assms(1) pr assms(3,4), of cnt] obtain h1 o1 where
    g: "grantWouldCreateDefiniteCycle_h h a procName resName cnt = Some (h1, o1)" by blast
  from addWait_h_total[OF assms(1) pr, of procName resName cnt] obtain h2 o2 where
    w: "addWaitWouldCreateDefiniteCycle_h h a procName resName cnt = Some (h2, o2)" by blast
  have p1: "prefix h h1" using grant_h_frame[OF g np] by (rule take_prefix)
  have p2: "prefix h h2" using addWait_h_frame[OF w] by (rule take_prefix)
  from g w p1 p2 readState_prefix[OF p1 assms(1)] readState_prefix[OF p2 assms(1)]
  show ?thesis by simp
qed

lemma addWait_check_frame:
  assumes "readState h a = Some st" and "protoProps h = Some ex"
  shows "\<exists>h' outcome. addWaitWouldCreateDefiniteCycle_h h a procName resName cnt = Some (h', outcome)
            \<and> prefix h h' \<and> readState h' a = Some st"
proof -
  have pr: "okCell ProtoK h 0" using assms(2) protoProps_ok by blast
  from addWait_h_total[OF assms(1) pr, of procName resName cnt] obtain h2 o2 where
    w: "addWaitWouldCreateDefiniteCycle_h h a procName resName cnt = Some (h2, o2)" by blast
  have p2: "prefix h h2" using addWait_h_frame[OF w] by (rule take_prefix)
  from w p2 readState_prefix[OF p2 assms(1)] show ?thesis by simp
qed

subsection \<open>A grant under the name \<open>__proto__\<close>\<close>

lemma pv_read: "readState protoHeap 12 = Some protoStateValue"
  by (simp add: protoHeap_def protoState_def readState_def getCell_def readArray_def
      readCells_def readDict_def readCounts_def readLogs_def asProcess_def asResource_def
      asWaitReq_def asEvent_def protoStateValue_def)

lemma pv_serialize: "serialize_h protoHeap 12 = Some (protoHeap @ protoState 13, 24)"
  by (simp add: protoHeap_def protoState_def serialize_h_def cloneState_def cloneArray_def
      cloneDict_def cloneCounts_def cloneLogs_def getCell_def copyProcess_def copyResource_def
      copyWaitReq_def copyEvent_def nth_append)

lemma pv_from: "from_h (protoHeap @ protoState 13) 24 = Some (protoHeap @ protoCopies, 42)"
  by (simp add: protoCopies_def emptyCells_def protoHeap_def protoState_def from_h_def
      cloneState_def cloneArray_def
      cloneDict_def cloneCounts_def cloneLogs_def getCell_def copyProcess_def rebuildResource_def
      copyWaitReq_def copyEvent_def nth_append newResource_def numberOr1_def)

lemma pv_ensure:
  "ensureResourceMaps_h (protoHeap @ protoCopies) 42 ''__proto__'' = Some (protoHeap @ protoCopies)"
  by (simp add: protoCopies_def emptyCells_def protoHeap_def protoState_def
      ensureResourceMaps_h_def getCell_def nth_append protoProps_def slotOf_def)

lemma pv_count:
  "addCount_h (protoHeap @ protoCopies) 42 ''__proto__'' ''P1'' 1
     = Some (Done (pollutedHeap @ protoCopies))"
  by (simp add: protoCopies_def emptyCells_def protoHeap_def pollutedHeap_def protoState_def
      addCount_h_def getCell_def nth_append protoProps_def slotOf_def inherited_def)

lemma pv_next: "readState (pollutedHeap @ protoCopies) 42 = Some protoStateValue"
  by (simp add: protoCopies_def emptyCells_def pollutedHeap_def protoState_def readState_def
      getCell_def readArray_def protoStateValue_def
      readCells_def readDict_def readCounts_def readLogs_def asProcess_def asResource_def
      asWaitReq_def asEvent_def nth_append)

lemma pv_names:
  "map r_name (resources protoStateValue) = [''__proto__'', ''R2'']"
  "map p_name (processes protoStateValue) = [''P1'']"
  by (simp_all add: protoStateValue_def)

lemma pv_each:
  "ensureEach (pollutedHeap @ protoCopies) 42 [''__proto__'', ''R2'']
     = Some (pollutedHeap @ protoCopies, True)"
  by (simp add: protoCopies_def emptyCells_def pollutedHeap_def protoState_def
      ensureResourceMaps_h_def ownQueue_def getCell_def nth_append protoProps_def slotOf_def)

lemma pv_props: "protoProps (pollutedHeap @ protoCopies) = Some [(''P1'', 1)]"
  by (simp add: protoProps_def getCell_def pollutedHeap_def)

lemma pv_analysis:
  "stateHasDefiniteCycle_h (pollutedHeap @ protoCopies) 42
     = Some (pollutedHeap @ protoCopies, Thrown)"
  by (simp add: stateHasDefiniteCycle_h_def pv_next pv_names pv_each pv_props
      del: ensureEach.simps)

lemma pv_held:
  "heldOf_h protoHeap 12 ''R2'' ''P1'' = Some 0"
  "heldOf_h (pollutedHeap @ protoCopies) 12 ''R2'' ''P1'' = Some 1"
  by (simp_all add: protoCopies_def emptyCells_def protoHeap_def pollutedHeap_def protoState_def
      heldOf_h_def getCell_def nth_append protoProps_def slotOf_def inherited_def)

lemma pv_grant:
  "grantWouldCreateDefiniteCycle_h protoHeap 12 ''P1'' ''__proto__'' (Some 1)
     = Some (pollutedHeap @ protoCopies, Thrown)"
  by (simp add: grantWouldCreateDefiniteCycle_h_def pv_serialize pv_from
      normCount_def numberOr1_def pv_ensure pv_count pv_analysis)

lemma pv_live:
  "getProcess_h protoHeap 12 ''P1'' = Some (Some 1)"
  "getResource_h protoHeap 12 ''__proto__'' = Some (Some 3)"
  "ensureResourceMaps_h protoHeap 12 ''__proto__'' = Some protoHeap"
  "availableOf_h protoHeap 12 ''__proto__'' = Some 1"
  "getCell protoHeap 12 = Some (StateCell \<lparr>ref_processes = 2, ref_resources = 5,
      ref_assignments = 7, ref_waitingRequests = 9, ref_eventQueue = 10, val_step = 0,
      ref_logs = 11, val_avoidance = True\<rparr>)"
  by (simp_all add: protoHeap_def protoState_def getProcess_h_def getResource_h_def
      availableOf_h_def ensureResourceMaps_h_def getCell_def protoProps_def slotOf_def)

lemma pv_request:
  "request_h protoHeap 12 ''P1'' ''__proto__'' (Some 1) True
     = Some (pollutedHeap @ protoCopies, TypeError)"
  by (simp add: request_h_def pv_live normCount_def numberOr1_def)
    (simp add: pv_grant[unfolded normCount_def numberOr1_def, simplified])

text \<open>
  C8 says that for every state the two speculative checks leave the live state completely
  unchanged, the hypothetical grant or wait being applied to an independent deep copy only.
  The code copies the state, but it looks the ledger of the copy up under the resource name,
  and under the name \<open>__proto__\<close> that finds \<open>Object.prototype\<close>, which the copy shares with
  the live state. On the state with the process \<open>P1\<close> and the resources \<open>__proto__\<close> and \<open>R2\<close>
  (one instance each, nothing held, avoidance on), \<open>grantWouldCreateDefiniteCycle\<close> for one
  unit of \<open>__proto__\<close> to \<open>P1\<close> stores the hypothetical count as \<open>Object.prototype.P1\<close> and
  then raises a \<open>TypeError\<close> in \<open>buildWFG\<close>. Every cell of the live state is as before, but
  the count that the live state reads for \<open>P1\<close> on \<open>R2\<close> has gone from 0 to 1. \<open>request\<close> makes
  this call when avoidance is on, and ends in the same store with the same \<open>TypeError\<close>.
\<close>

theorem grant_test_writes_prototype:
  "readState protoHeap 12 = Some protoStateValue
   \<and> heldOf_h protoHeap 12 ''R2'' ''P1'' = Some 0
   \<and> grantWouldCreateDefiniteCycle_h protoHeap 12 ''P1'' ''__proto__'' (Some 1)
       = Some (pollutedHeap @ protoCopies, Thrown)
   \<and> protoProps (pollutedHeap @ protoCopies) = Some [(''P1'', 1)]
   \<and> readState (pollutedHeap @ protoCopies) 12 = Some protoStateValue
   \<and> heldOf_h (pollutedHeap @ protoCopies) 12 ''R2'' ''P1'' = Some 1
   \<and> request_h protoHeap 12 ''P1'' ''__proto__'' (Some 1) True
       = Some (pollutedHeap @ protoCopies, TypeError)"
  by (simp add: pv_read pv_held pv_grant pv_props pv_request)
    (simp add: protoCopies_def emptyCells_def pollutedHeap_def protoState_def readState_def
      getCell_def readArray_def protoStateValue_def
      readCells_def readDict_def readCounts_def readLogs_def asProcess_def asResource_def
      asWaitReq_def asEvent_def nth_append)

section \<open>The ledger on sequences of plain operations\<close>

text \<open>
  On the sequences that bring in no inherited name and no count beyond the exact range the
  value model follows the code: they run to completion, the held counts of every resource
  sum to at most its total and no ledger entry is 0.
\<close>

lemma ledger_invariant_plain:
  assumes "list_all plainOp xs"
  shows "\<exists>st. run xs newRAGState = Some st
     \<and> (\<forall>r \<in> set (resources st). sum_list (map snd (assignedOf st (r_name r))) \<le> r_total r)
     \<and> (\<forall>r m p n. (r, m) \<in> set (assignments st) \<longrightarrow> (p, n) \<in> set m \<longrightarrow> n \<noteq> 0)"
proof -
  from run_wf[OF wf_state_new, of xs] obtain st where
    r: "run xs newRAGState = Some st" "wf_state st" by blast
  have b: "\<forall>r \<in> set (resources st). sum_list (map snd (assignedOf st (r_name r))) \<le> r_total r"
    using wf_state_bounded[OF r(2)] by blast
  have "ledger_ok st" using r(2) by (simp add: wf_state_def)
  then have z: "\<forall>r m p n. (r, m) \<in> set (assignments st) \<longrightarrow> (p, n) \<in> set m \<longrightarrow> n \<noteq> 0"
    unfolding ledger_ok_def by fastforce
  from r(1) b z show ?thesis by blast
qed

subsection \<open>A grant read back from \<open>Object.prototype\<close>\<close>

lemma og1:
  "addResource_h (fst (newState_h [ProtoCell []])) 7 ''__proto__'' (Some 1)
     = Some (liveCells [] [] [8] [] [] [] @ [ResourceCell ''__proto__'' 1], True)"
  by (simp add: newState_h_def liveCells_def addResource_h_def getResource_h_def getCell_def
      ensureResourceMaps_h_def protoProps_def slotOf_def newResource_def numberOr1_def)

lemma og2:
  "addProcess_h (liveCells [] [] [8] [] [] [] @ [ResourceCell ''__proto__'' 1]) 7 ''P1''
     = Some (liveCells [] [9] [8] [] [] []
               @ [ResourceCell ''__proto__'' 1, ProcessCell ''P1'' ready], True)"
  by (simp add: liveCells_def addProcess_h_def getProcess_h_def getCell_def)

lemma og3:
  "addResource_h (liveCells [] [9] [8] [] [] []
                    @ [ResourceCell ''__proto__'' 1, ProcessCell ''P1'' ready]) 7 ''R2'' (Some 1)
     = Some (liveCells [] [9] [8, 10] [(''R2'', 11)] [(''R2'', 12)] []
               @ [ResourceCell ''__proto__'' 1, ProcessCell ''P1'' ready, ResourceCell ''R2'' 1,
                  CountsCell [], ArrayCell []], True)"
  by (simp add: liveCells_def addResource_h_def getResource_h_def getCell_def
      ensureResourceMaps_h_def protoProps_def slotOf_def newResource_def numberOr1_def
      inherited_def)

lemma og4:
  "request_h (liveCells [] [9] [8, 10] [(''R2'', 11)] [(''R2'', 12)] []
               @ [ResourceCell ''__proto__'' 1, ProcessCell ''P1'' ready, ResourceCell ''R2'' 1,
                  CountsCell [], ArrayCell []]) 7 ''P1'' ''__proto__'' (Some 1) True
     = Some (liveCells [(''P1'', 1)] [9] [8, 10] [(''R2'', 11)] [(''R2'', 12)]
               [GrantedLog ''P1'' 1 ''__proto__'' 0]
               @ [ResourceCell ''__proto__'' 1, ProcessCell ''P1'' ready, ResourceCell ''R2'' 1,
                  CountsCell [], ArrayCell []], Done Granted)"
  by (simp add: liveCells_def request_h_def getProcess_h_def getResource_h_def getCell_def
      ensureResourceMaps_h_def protoProps_def slotOf_def availableOf_h_def normCount_def
      numberOr1_def commitGrant_h_def addCount_h_def pushLog_h_def inherited_def)

lemma og5:
  "request_h (liveCells [(''P1'', 1)] [9] [8, 10] [(''R2'', 11)] [(''R2'', 12)]
               [GrantedLog ''P1'' 1 ''__proto__'' 0]
               @ [ResourceCell ''__proto__'' 1, ProcessCell ''P1'' ready, ResourceCell ''R2'' 1,
                  CountsCell [], ArrayCell []]) 7 ''P1'' ''R2'' (Some 1) True
     = Some (overGranted, Done Granted)"
  by (simp add: liveCells_def overGranted_def request_h_def getProcess_h_def getResource_h_def
      getCell_def
      ensureResourceMaps_h_def protoProps_def slotOf_def availableOf_h_def normCount_def
      numberOr1_def commitGrant_h_def addCount_h_def pushLog_h_def inherited_def)

lemma og_read: "readState overGranted 7 = Some overGrantedState"
  by (simp add: overGranted_def liveCells_def overGrantedState_def readState_def getCell_def
      readArray_def readCells_def readDict_def readCounts_def readLogs_def asProcess_def
      asResource_def asWaitReq_def asEvent_def)

text \<open>
  C3 says that every sequence of public operations from an empty state keeps, for every
  resource, the sum of the held counts in the ledger within the total of the resource, with no
  entry of count 0. \<open>request\<close> guards every grant with \<open>avail >= count\<close>, but it keeps the
  ledger in object literals keyed by the resource name and by the process name. For the
  resource \<open>__proto__\<close> no ledger is created, and the grant to \<open>P1\<close> is stored as
  \<open>Object.prototype.P1\<close>. The next grant, of the one instance of \<open>R2\<close> to \<open>P1\<close>, reads this
  inherited 1 as the count that \<open>P1\<close> holds of \<open>R2\<close> and stores 2. Both requests return
  \<open>granted\<close>, and the ledger of \<open>R2\<close> ends with 2 units held of a total of 1.
\<close>

theorem ledger_exceeds_total:
  "overGrant = Some (overGranted, Done Granted)
   \<and> readState overGranted 7 = Some overGrantedState
   \<and> getResource overGrantedState ''R2'' = Some \<lparr>r_name = ''R2'', r_total = 1\<rparr>
   \<and> sum_list (map snd (assignedOf overGrantedState ''R2'')) = 2"
  by (simp add: overGrant_def og1 og2 og3 og4 og5 og_read)
    (simp add: overGrantedState_def getResource_def assignedOf_def)

section \<open>Step forward and backward from an agreeing snapshot\<close>

lemma from_fields:
  "processes (RAGState_from d) = processes d"
  "assignments (RAGState_from d) = assignments d"
  "waitingRequests (RAGState_from d) = waitingRequests d"
  "step (RAGState_from d) = step d"
  by (simp_all add: RAGState_from_def newProcess_def)

lemma pending_release:
  "release (directPre\<lparr>step := 1\<rparr>) ''P2'' ''R1'' (Some 1) = Some (directAfter\<lparr>step := 1\<rparr>, Released 1)"
proof -
  let ?d = "directPre\<lparr>step := 1\<rparr>"
  have e: "ensureResourceMaps ?d ''R1'' = ?d"
    by (simp add: ensureResourceMaps_def directPre_def)
  have h: "heldOf ?d ''R1'' ''P2'' = 1"
    by (simp add: heldOf_def assignedOf_def directPre_def)
  have n: "normCount (Some 1) = 1" by (simp add: normCount_def numberOr1_def)
  define st4 where "st4 = ?d\<lparr>assignments := [(''R1'', []), (''R2'', [(''P2'', 1)])],
      logs := logs directPre @ [ReleasedLog ''P2'' 1 ''R1'' 1]\<rparr>"
  have s3: "deleteAssigned (setAssigned ?d ''R1'' ''P2'' 0) ''R1'' ''P2''
      = ?d\<lparr>assignments := [(''R1'', []), (''R2'', [(''P2'', 1)])]\<rparr>"
    by (simp add: deleteAssigned_def setAssigned_def assignedOf_def directPre_def)
  have av: "availableOf (?d\<lparr>assignments := [(''R1'', []), (''R2'', [(''P2'', 1)])]\<rparr>) ''R1'' = 1"
    by (simp add: availableOf_def getResource_def assignedOf_def directPre_def)
  have e4: "ensureResourceMaps st4 ''R1'' = st4"
    by (simp add: ensureResourceMaps_def st4_def directPre_def)
  have q4: "queueOf st4 ''R1'' = [\<lparr>process = ''P1'', count = 1\<rparr>]"
    by (simp add: queueOf_def st4_def directPre_def)
  have a4: "availableOf st4 ''R1'' = 1" "\<not> avoidance st4"
    by (simp_all add: availableOf_def getResource_def assignedOf_def st4_def directPre_def)
  have g: "grantEntry st4 ''R1'' [] \<lparr>process = ''P1'', count = 1\<rparr> [] = directAfter\<lparr>step := 1\<rparr>"
    unfolding grantEntry_def Let_def
    by (simp add: addAssigned_def setAssigned_def heldOf_def assignedOf_def setQueue_def
        getProcess_def setProcessState_def pushLog_def st4_def directPre_def directAfter_def)
  have t: "tryGrantWaiting st4 ''R1'' = Some (directAfter\<lparr>step := 1\<rparr>, True)"
    by (simp add: tryGrantWaiting_scanQueue e4 q4 a4 g)
  have p: "getProcess ?d ''P2'' \<noteq> None" "getResource ?d ''R1'' \<noteq> None"
    by (simp_all add: getProcess_def getResource_def directPre_def)
  show ?thesis
    unfolding release_def Let_def e h n
    using p by (simp add: s3 av pushLog_def st4_def[symmetric] t)
qed

lemma pending_step: "stepForward pendingState True = Some pendingStepped"
proof -
  have a: "pendingState\<lparr>step := step pendingState + 1, eventQueue := []\<rparr> = directPre\<lparr>step := 1\<rparr>"
    by (simp add: pendingState_def directPre_def)
  have r: "recomputeStates (directAfter\<lparr>step := 1\<rparr>) = pendingStepped"
    by (simp add: recomputeStates_def hasWaitEntry_def queueOf_def directAfter_def
        pendingStepped_def)
  have q: "eventQueue (pendingState\<lparr>step := step pendingState + 1\<rparr>)
      = [\<lparr>e_type = ''release'', e_process = ''P2'', e_resource = ''R1'', e_count = Some 1\<rparr>]"
    by (simp add: pendingState_def)
  show ?thesis
    unfolding stepForward_def Let_def q
    by (simp add: a pending_release r)
qed

text \<open>
  C4, amended. For a simulator whose history has not overflowed its cap and whose latest
  history entry agrees with its live state on the assignments, the wait queues, the step
  counter and the processes with their states, \<open>stepForward\<close> followed immediately by
  \<open>stepBackward\<close> restores the assignments, the wait queues, the step counter and the
  process states of the state before the step (and the history).
\<close>

theorem step_round_trip:
  assumes "history sim \<noteq> []"
    and "assignments (last (history sim)) = assignments (state sim)"
    and "waitingRequests (last (history sim)) = waitingRequests (state sim)"
    and "step (last (history sim)) = step (state sim)"
    and "processes (last (history sim)) = processes (state sim)"
    and "length (history sim) < 1000"
    and "Simulator_stepForward sim autoGrant = Some sim1"
  shows "assignments (state (stepBackward sim1)) = assignments (state sim)
    \<and> waitingRequests (state (stepBackward sim1)) = waitingRequests (state sim)
    \<and> step (state (stepBackward sim1)) = step (state sim)
    \<and> processes (state (stepBackward sim1)) = processes (state sim)
    \<and> history (stepBackward sim1) = history sim"
proof -
  from assms(7) obtain st1 where
    s1: "sim1 = snapshot (sim\<lparr>state := st1\<rparr>)"
    by (auto simp: Simulator_stepForward_def split: option.splits)
  have h1: "history sim1 = history sim @ [serialize st1]"
    using assms(6) by (simp add: s1 snapshot_def Let_def)
  have len: "length (history sim1) > 1"
    using assms(1) by (cases "history sim") (simp_all add: h1)
  have bk: "stepBackward sim1
      = sim1\<lparr>history := history sim, state := RAGState_from (last (history sim))\<rparr>"
    using len assms(1) by (simp add: stepBackward_def Let_def h1)
  show ?thesis
    using assms(2-5) by (simp add: bk from_fields)
qed

theorem step_round_trip_witness:
  "history pendingSim \<noteq> [] \<and> length (history pendingSim) < 1000
   \<and> last (history pendingSim) = serialize (state pendingSim)
   \<and> Simulator_stepForward pendingSim True
       = Some \<lparr>state = pendingStepped, history = [serialize pendingState, serialize pendingStepped]\<rparr>
   \<and> assignments pendingStepped = [(''R1'', [(''P1'', 1)]), (''R2'', [(''P2'', 1)])]
   \<and> waitingRequests pendingStepped = [(''R1'', []), (''R2'', [\<lparr>process = ''P1'', count = 1\<rparr>])]
   \<and> step pendingStepped = 1
   \<and> assignments (state (stepBackward \<lparr>state = pendingStepped,
         history = [serialize pendingState, serialize pendingStepped]\<rparr>))
       = [(''R1'', [(''P2'', 1)]), (''R2'', [(''P2'', 1)])]
   \<and> waitingRequests (state (stepBackward \<lparr>state = pendingStepped,
         history = [serialize pendingState, serialize pendingStepped]\<rparr>))
       = [(''R1'', [\<lparr>process = ''P1'', count = 1\<rparr>]), (''R2'', [\<lparr>process = ''P1'', count = 1\<rparr>])]
   \<and> step (state (stepBackward \<lparr>state = pendingStepped,
         history = [serialize pendingState, serialize pendingStepped]\<rparr>)) = 0
   \<and> processes (state (stepBackward \<lparr>state = pendingStepped,
         history = [serialize pendingState, serialize pendingStepped]\<rparr>))
       = [\<lparr>p_name = ''P1'', p_state = blocked\<rparr>, \<lparr>p_name = ''P2'', p_state = ready\<rparr>]"
proof -
  have a: "history pendingSim \<noteq> []" by (simp add: pendingSim_def)
  have b: "assignments (last (history pendingSim)) = assignments (state pendingSim)"
    "waitingRequests (last (history pendingSim)) = waitingRequests (state pendingSim)"
    "step (last (history pendingSim)) = step (state pendingSim)"
    "processes (last (history pendingSim)) = processes (state pendingSim)"
    by (simp_all add: pendingSim_def serialize_def)
  have c: "length (history pendingSim) < 1000" by (simp add: pendingSim_def)
  have d: "Simulator_stepForward pendingSim True
       = Some \<lparr>state = pendingStepped, history = [serialize pendingState, serialize pendingStepped]\<rparr>"
    by (simp add: Simulator_stepForward_def pendingSim_def pending_step snapshot_def Let_def)
  have e: "assignments (state pendingSim) = [(''R1'', [(''P2'', 1)]), (''R2'', [(''P2'', 1)])]"
    "waitingRequests (state pendingSim)
       = [(''R1'', [\<lparr>process = ''P1'', count = 1\<rparr>]), (''R2'', [\<lparr>process = ''P1'', count = 1\<rparr>])]"
    "step (state pendingSim) = 0"
    "processes (state pendingSim)
       = [\<lparr>p_name = ''P1'', p_state = blocked\<rparr>, \<lparr>p_name = ''P2'', p_state = ready\<rparr>]"
    by (simp_all add: pendingSim_def pendingState_def directPre_def)
  have f: "assignments pendingStepped = [(''R1'', [(''P1'', 1)]), (''R2'', [(''P2'', 1)])]"
    "waitingRequests pendingStepped = [(''R1'', []), (''R2'', [\<lparr>process = ''P1'', count = 1\<rparr>])]"
    "step pendingStepped = 1"
    by (simp_all add: pendingStepped_def directAfter_def)
  have g: "last (history pendingSim) = serialize (state pendingSim)" by (simp add: pendingSim_def)
  note t = step_round_trip[OF a b c d]
  show ?thesis
    using t a c d e f g by simp
qed

section \<open>Release of nothing and the count used\<close>





lemma heldOf_pushLog [simp]: "heldOf (pushLog st l) r p = heldOf st r p"
  by (simp add: heldOf_def)



lemma availableOf_pushLog [simp]: "availableOf (pushLog st l) r = availableOf st r"
  by (simp add: availableOf_def pushLog_def getResource_def assignedOf_def split: option.splits)

lemma avoidance_grantEntry [simp]: "avoidance (grantEntry st r kept req rest) = avoidance st"
  by (simp add: grantEntry_def Let_def addAssigned_def setAssigned_def setQueue_def
      setProcessState_def pushLog_def)













end
